theory Spec2Isabelle
  imports Main
begin

unbundle bit_operations_syntax

section \<open>Data model of \<open>board.py\<close>\<close>

text \<open>
  Bitboards are Python integers, which are unbounded and behave as infinite two's
  complement numbers under \<open>&\<close>, \<open>|\<close>, \<open>~\<close>, \<open><<\<close> and \<open>>>\<close>. They are modelled as
  \<open>int\<close> with \<open>AND\<close>, \<open>OR\<close>, \<open>NOT\<close>, \<open>push_bit\<close> and \<open>drop_bit\<close>, which
  have the same meaning. A condition \<open>if x & y:\<close> is the test \<open>x AND y \<noteq> 0\<close>.

  Exceptions are values: a function that can raise returns \<open>error + 'a\<close>, and a method
  that also mutates the object returns the object together with that outcome, so the
  object's fields at the moment an exception leaves the method stay visible.
\<close>

datatype error = RecursionError | ValueError | TypeError | IndexError

text \<open>The field \<open>_current_turn\<close> only ever holds \<open>"White"\<close> or \<open>"Black"\<close>.\<close>

datatype side = White | Black

record board =
  current_turn :: side
  piece_moved_index :: "nat option"
  piece_captured_index :: "nat option"
  white_pieces_list :: "int list"
  black_pieces_list :: "int list"
  all_white_pieces_bb :: int
  all_black_pieces_bb :: int
  all_pieces_bb :: int

definition piece_names :: "string list" where
  "piece_names = [''Pawn'', ''Rook'', ''Knight'', ''Bishop'', ''Queen'', ''King'']"

text \<open>List indexing with a non-negative index: Python raises \<open>IndexError\<close> out of range.\<close>

definition py_index :: "'a list \<Rightarrow> nat \<Rightarrow> error + 'a" where
  "py_index xs i = (if i < length xs then Inr (xs ! i) else Inl IndexError)"

subsection \<open>Get and set methods\<close>

definition get_pieces :: "board \<Rightarrow> int list \<times> int list" where
  "get_pieces b = (white_pieces_list b, black_pieces_list b)"

definition get_turn :: "board \<Rightarrow> side" where
  "get_turn b = current_turn b"

text \<open>\<open>get_piece_moved\<close> indexes \<open>_piece_names\<close> with the stored index; indexing a
  list with \<open>None\<close> is a \<open>TypeError\<close>.\<close>

definition get_piece_moved :: "board \<Rightarrow> board \<times> (error + string)" where
  "get_piece_moved b =
     (case piece_moved_index b of
        None \<Rightarrow> (b, Inl TypeError)
      | Some i \<Rightarrow>
          (case py_index piece_names i of
             Inl e \<Rightarrow> (b, Inl e)
           | Inr piece_type \<Rightarrow> (b\<lparr>piece_moved_index := None\<rparr>, Inr piece_type)))"

definition get_piece_captured :: "board \<Rightarrow> board \<times> (error + string option)" where
  "get_piece_captured b =
     (case piece_captured_index b of
        None \<Rightarrow> (b, Inr None)
      | Some i \<Rightarrow>
          (case py_index piece_names i of
             Inl e \<Rightarrow> (b, Inl e)
           | Inr piece_type \<Rightarrow> (b\<lparr>piece_captured_index := None\<rparr>, Inr (Some piece_type))))"

definition set_next_turn :: "board \<Rightarrow> board" where
  "set_next_turn b =
     (if current_turn b = White then b\<lparr>current_turn := Black\<rparr>
      else b\<lparr>current_turn := White\<rparr>)"

subsection \<open>Chessboard representation\<close>

text \<open>\<open>__init__\<close> followed by \<open>setup_new_board\<close>.\<close>

definition setup_new_board :: board where
  "setup_new_board =
     \<lparr> current_turn = White,
       piece_moved_index = None,
       piece_captured_index = None,
       white_pieces_list =
         [push_bit 8 0xff, 0x81, 0x42, 0x24, 0x08, 0x10],
       black_pieces_list =
         [push_bit (8 * 6) 0xff, push_bit (8 * 7) 0x81, push_bit (8 * 7) 0x42,
          push_bit (8 * 7) 0x24, push_bit (8 * 7) 0x08, push_bit (8 * 7) 0x10],
       all_white_pieces_bb = 0xffff,
       all_black_pieces_bb = 0xffff000000000000,
       all_pieces_bb = 0xffff00000000ffff \<rparr>"

text \<open>
  The capture loop of \<open>update_bitboards\<close>: \<open>for index, piece_type_bb in
  enumerate(opponents_pieces_list)\<close>. The list is the opponent's own list (an alias), it is
  changed only at the index being visited, and the side to move selects which aggregate
  mask loses the bit.
\<close>

fun capture_loop :: "board \<Rightarrow> int \<Rightarrow> nat list \<Rightarrow> board" where
  "capture_loop b move_to_bb [] = b"
| "capture_loop b move_to_bb (index # rest) =
     (if current_turn b = White then
        (if move_to_bb AND (black_pieces_list b ! index) \<noteq> 0 then
           capture_loop
             (b\<lparr>piece_captured_index := Some index,
                black_pieces_list :=
                  (black_pieces_list b)[index := (black_pieces_list b ! index) AND NOT move_to_bb],
                all_black_pieces_bb := all_black_pieces_bb b AND NOT move_to_bb\<rparr>)
             move_to_bb rest
         else capture_loop b move_to_bb rest)
      else
        (if move_to_bb AND (white_pieces_list b ! index) \<noteq> 0 then
           capture_loop
             (b\<lparr>piece_captured_index := Some index,
                white_pieces_list :=
                  (white_pieces_list b)[index := (white_pieces_list b ! index) AND NOT move_to_bb],
                all_white_pieces_bb := all_white_pieces_bb b AND NOT move_to_bb\<rparr>)
             move_to_bb rest
         else capture_loop b move_to_bb rest))"

definition update_bitboards :: "board \<Rightarrow> int \<Rightarrow> int \<Rightarrow> board \<times> (error + unit)" where
  "update_bitboards b move_from_bb move_to_bb =
     (case piece_moved_index b of
        None \<Rightarrow> (b, Inl TypeError)
      | Some i \<Rightarrow>
          if current_turn b = White then
            (if i < length (white_pieces_list b) then
               (let b1 = b\<lparr>white_pieces_list :=
                            (white_pieces_list b)
                              [i := ((white_pieces_list b ! i) AND NOT move_from_bb) OR move_to_bb],
                          all_white_pieces_bb :=
                            (all_white_pieces_bb b AND NOT move_from_bb) OR move_to_bb\<rparr>;
                    all_opponents_pieces_bb = all_black_pieces_bb b1;
                    b2 = b1\<lparr>all_pieces_bb := (all_pieces_bb b1 AND NOT move_from_bb) OR move_to_bb\<rparr>
                in if move_to_bb AND all_opponents_pieces_bb \<noteq> 0
                   then (capture_loop b2 move_to_bb [0..<length (black_pieces_list b2)], Inr ())
                   else (b2, Inr ()))
             else (b, Inl IndexError))
          else
            (if i < length (black_pieces_list b) then
               (let b1 = b\<lparr>black_pieces_list :=
                            (black_pieces_list b)
                              [i := ((black_pieces_list b ! i) AND NOT move_from_bb) OR move_to_bb],
                          all_black_pieces_bb :=
                            (all_black_pieces_bb b AND NOT move_from_bb) OR move_to_bb\<rparr>;
                    all_opponents_pieces_bb = all_white_pieces_bb b1;
                    b2 = b1\<lparr>all_pieces_bb := (all_pieces_bb b1 AND NOT move_from_bb) OR move_to_bb\<rparr>
                in if move_to_bb AND all_opponents_pieces_bb \<noteq> 0
                   then (capture_loop b2 move_to_bb [0..<length (white_pieces_list b2)], Inr ())
                   else (b2, Inr ()))
             else (b, Inl IndexError)))"

subsection \<open>Recursive movement checkers\<close>

text \<open>
  The boundary masks of \<open>recc_left_shift\<close> (\<open><<\<close>: 8 North, 1 East, 7 Northwest,
  9 Northeast) and of \<open>recc_right_shift\<close> (\<open>>>\<close>: 8 South, 1 West, 7 Southeast,
  9 Southwest). Any other direction has no test at all.
\<close>

definition left_boundary :: "int \<Rightarrow> int option" where
  "left_boundary direction =
     (if direction = 8 then Some 0xff00000000000000
      else if direction = 1 then Some 0x8080808080808080
      else if direction = 7 then Some 0xff01010101010101
      else if direction = 9 then Some 0xff80808080808080
      else None)"

definition right_boundary :: "int \<Rightarrow> int option" where
  "right_boundary direction =
     (if direction = 8 then Some 0xff
      else if direction = 1 then Some 0x101010101010101
      else if direction = 7 then Some 0x80808080808080ff
      else if direction = 9 then Some 0x1010101010101ff
      else None)"

definition collides :: "int option \<Rightarrow> int \<Rightarrow> int \<Rightarrow> bool" where
  "collides boundary location_bb pieces =
     (case boundary of
        None \<Rightarrow> False
      | Some m \<Rightarrow> location_bb AND m \<noteq> 0 \<or> location_bb AND pieces \<noteq> 0)"

definition limit_reached :: "int option \<Rightarrow> bool" where
  "limit_reached move_limit_count =
     (case move_limit_count of None \<Rightarrow> False | Some c \<Rightarrow> c \<le> 0)"

text \<open>
  The recursion has no base case of its own for a location that never meets a boundary
  or a piece (the empty bitboard, for one), where Python ends with \<open>RecursionError\<close>.
  The first argument is the number of stack frames still available. A shift by a negative
  count is a \<open>ValueError\<close>. The second argument is the field \<open>_all_pieces_bb\<close>.
\<close>

fun recc_left_shift :: "nat \<Rightarrow> int \<Rightarrow> int \<Rightarrow> int \<Rightarrow> int option \<Rightarrow> error + int" where
  "recc_left_shift 0 pieces location_bb direction move_limit_count = Inl RecursionError"
| "recc_left_shift (Suc depth) pieces location_bb direction move_limit_count =
     (if limit_reached move_limit_count then Inr 0
      else if collides (left_boundary direction) location_bb pieces then Inr 0
      else if direction < 0 then Inl ValueError
      else
        (let destination_bb = push_bit (nat direction) location_bb in
         case recc_left_shift depth pieces destination_bb direction
                (map_option (\<lambda>c. c - 1) move_limit_count) of
           Inl e \<Rightarrow> Inl e
         | Inr rest \<Rightarrow> Inr (destination_bb OR rest)))"

fun recc_right_shift :: "nat \<Rightarrow> int \<Rightarrow> int \<Rightarrow> int \<Rightarrow> int option \<Rightarrow> error + int" where
  "recc_right_shift 0 pieces location_bb direction move_limit_count = Inl RecursionError"
| "recc_right_shift (Suc depth) pieces location_bb direction move_limit_count =
     (if limit_reached move_limit_count then Inr 0
      else if collides (right_boundary direction) location_bb pieces then Inr 0
      else if direction < 0 then Inl ValueError
      else
        (let destination_bb = drop_bit (nat direction) location_bb in
         case recc_right_shift depth pieces destination_bb direction
                (map_option (\<lambda>c. c - 1) move_limit_count) of
           Inl e \<Rightarrow> Inl e
         | Inr rest \<Rightarrow> Inr (destination_bb OR rest)))"

subsection \<open>Movement generators\<close>

text \<open>The loop of \<open>generate_moves\<close> over the directions, with its accumulator.\<close>

fun generate_moves_loop ::
  "nat \<Rightarrow> int \<Rightarrow> int \<Rightarrow> int list \<Rightarrow> int option \<Rightarrow> int \<Rightarrow> error + int" where
  "generate_moves_loop depth pieces origin_bb [] move_limit moves_result_bb =
     Inr moves_result_bb"
| "generate_moves_loop depth pieces origin_bb (direction # directions) move_limit
     moves_result_bb =
     (if direction > 0 then
        (case recc_left_shift depth pieces origin_bb direction move_limit of
           Inl e \<Rightarrow> Inl e
         | Inr r \<Rightarrow>
             generate_moves_loop depth pieces origin_bb directions move_limit
               (moves_result_bb OR r))
      else if direction < 0 then
        (case recc_right_shift depth pieces origin_bb \<bar>direction\<bar> move_limit of
           Inl e \<Rightarrow> Inl e
         | Inr r \<Rightarrow>
             generate_moves_loop depth pieces origin_bb directions move_limit
               (moves_result_bb OR r))
      else generate_moves_loop depth pieces origin_bb directions move_limit moves_result_bb)"

definition generate_moves ::
  "nat \<Rightarrow> int \<Rightarrow> int \<Rightarrow> int list \<Rightarrow> int option \<Rightarrow> error + int" where
  "generate_moves depth pieces origin_bb directions move_limit =
     generate_moves_loop depth pieces origin_bb directions move_limit 0"

definition generate_moves_pawn :: "nat \<Rightarrow> board \<Rightarrow> int \<Rightarrow> error + int" where
  "generate_moves_pawn depth b move_from_bb =
     (let direction = (if current_turn b = White then 1 else - 1);
          forward_move_limit =
            (if current_turn b = White
             then (if move_from_bb AND 0xff00 \<noteq> 0 then 2 else 1)
             else (if move_from_bb AND 0xff000000000000 \<noteq> 0 then 2 else 1))
      in case generate_moves depth (all_pieces_bb b) move_from_bb [8 * direction]
                (Some forward_move_limit) of
           Inl e \<Rightarrow> Inl e
         | Inr forward \<Rightarrow>
             (let valid_moves_bb = forward AND NOT (all_pieces_bb b) in
              case generate_moves depth (all_pieces_bb b) move_from_bb
                     [7 * direction, 9 * direction] (Some 1) of
                Inl e \<Rightarrow> Inl e
              | Inr diagonal \<Rightarrow> Inr (valid_moves_bb OR (all_pieces_bb b AND diagonal))))"

text \<open>The two inner loops of \<open>generate_moves_knight\<close>, unrolled in the order they run:
  \<open>(leg_one, multiplier)\<close> is (1, 1), (1, 8), (2, 1), (2, 8).\<close>

definition knight_jumps :: "int \<Rightarrow> nat \<Rightarrow> nat \<Rightarrow> int" where
  "knight_jumps knight_bb leg_one multiplier =
     (let leg_two = 3 - leg_one; multiplier2 = 9 - multiplier in
        drop_bit (leg_two * multiplier2) (drop_bit (leg_one * multiplier) knight_bb)
        OR push_bit (leg_two * multiplier2) (drop_bit (leg_one * multiplier) knight_bb)
        OR drop_bit (leg_two * multiplier2) (push_bit (leg_one * multiplier) knight_bb)
        OR push_bit (leg_two * multiplier2) (push_bit (leg_one * multiplier) knight_bb))"

definition generate_moves_knight :: "int \<Rightarrow> int" where
  "generate_moves_knight move_from_bb =
     (let north = (move_from_bb AND 0xffffffff00000000 \<noteq> 0);
          west = (move_from_bb AND 0xf0f0f0f0f0f0f0f \<noteq> 0);
          boundary_bb =
            (if north then - 0xffff000000000000 else 0xffff)
            OR (if west then 0x303030303030303 else 0xc0c0c0c0c0c0c0c0);
          right_bit_shifts = (if north then 8 * 2 else 0) + (if west then 0 else 2);
          left_bit_shifts = (if north then 0 else 8 * 2) + (if west then 2 else 0);
          knight_bb = push_bit left_bit_shifts (drop_bit right_bit_shifts move_from_bb);
          moves_bb =
            knight_jumps knight_bb 1 1 OR knight_jumps knight_bb 1 8
            OR knight_jumps knight_bb 2 1 OR knight_jumps knight_bb 2 8
      in drop_bit left_bit_shifts (push_bit right_bit_shifts (moves_bb AND NOT boundary_bb)))"

subsection \<open>Move execution\<close>

text \<open>
  \<open>find_valid_moves\<close>: the side to move's six masks are tested in order; the first that
  holds the origin sets \<open>_piece_moved_index\<close> and selects the generator.
\<close>

definition without_friendly :: "int \<Rightarrow> error + int \<Rightarrow> error + int" where
  "without_friendly friendly_pieces_bb r =
     (case r of Inl e \<Rightarrow> Inl e | Inr moves \<Rightarrow> Inr (moves AND NOT friendly_pieces_bb))"

definition find_valid_moves :: "nat \<Rightarrow> board \<Rightarrow> int \<Rightarrow> board \<times> (error + int)" where
  "find_valid_moves depth b move_from_bb =
     (let pieces_to_search =
            (if current_turn b = White then white_pieces_list b else black_pieces_list b);
          friendly_pieces_bb =
            (if current_turn b = White then all_white_pieces_bb b else all_black_pieces_bb b)
      in
      (case py_index pieces_to_search 0 of Inl e \<Rightarrow> (b, Inl e) | Inr p0 \<Rightarrow>
      (if p0 AND move_from_bb \<noteq> 0 then
        (let b' = b\<lparr>piece_moved_index := Some 0\<rparr> in
         (b', without_friendly friendly_pieces_bb (generate_moves_pawn depth b' move_from_bb)))
      else
      (case py_index pieces_to_search 1 of Inl e \<Rightarrow> (b, Inl e) | Inr p1 \<Rightarrow>
      (if p1 AND move_from_bb \<noteq> 0 then
        (b\<lparr>piece_moved_index := Some 1\<rparr>,
         without_friendly friendly_pieces_bb
           (generate_moves depth (all_pieces_bb b) move_from_bb [8, - 8, 1, - 1] None))
      else
      (case py_index pieces_to_search 2 of Inl e \<Rightarrow> (b, Inl e) | Inr p2 \<Rightarrow>
      (if p2 AND move_from_bb \<noteq> 0 then
        (b\<lparr>piece_moved_index := Some 2\<rparr>,
         without_friendly friendly_pieces_bb (Inr (generate_moves_knight move_from_bb)))
      else
      (case py_index pieces_to_search 3 of Inl e \<Rightarrow> (b, Inl e) | Inr p3 \<Rightarrow>
      (if p3 AND move_from_bb \<noteq> 0 then
        (b\<lparr>piece_moved_index := Some 3\<rparr>,
         without_friendly friendly_pieces_bb
           (generate_moves depth (all_pieces_bb b) move_from_bb [7, 9, - 7, - 9] None))
      else
      (case py_index pieces_to_search 4 of Inl e \<Rightarrow> (b, Inl e) | Inr p4 \<Rightarrow>
      (if p4 AND move_from_bb \<noteq> 0 then
        (b\<lparr>piece_moved_index := Some 4\<rparr>,
         without_friendly friendly_pieces_bb
           (generate_moves depth (all_pieces_bb b) move_from_bb
              [8, - 8, 1, - 1, 7, 9, - 7, - 9] None))
      else
      (case py_index pieces_to_search 5 of Inl e \<Rightarrow> (b, Inl e) | Inr p5 \<Rightarrow>
      (if p5 AND move_from_bb \<noteq> 0 then
        (b\<lparr>piece_moved_index := Some 5\<rparr>,
         without_friendly friendly_pieces_bb
           (generate_moves depth (all_pieces_bb b) move_from_bb
              [8, - 8, 1, - 1, 7, 9, - 7, - 9] (Some 1)))
      else (b, Inr 0))))))))))))))"

subsection \<open>Coordinate conversion\<close>

text \<open>
  A Python string is a sequence of code points. The model's \<open>string\<close> holds the code
  points 0 to 255; \<open>len\<close> is \<open>length\<close>. \<open>upper_char c\<close> is the list of code points
  of \<open>c.upper()\<close>, which for these characters is: lower-case ASCII and Latin-1 letters
  lose 32, the micro sign becomes U+039C, y with diaeresis becomes U+0178, and the sharp s
  becomes the two characters \<open>SS\<close>. \<open>ord\<close> of a string that is not one character long is a
  \<open>TypeError\<close>; \<open>int\<close> of a one-character string that is not a decimal digit is a
  \<open>ValueError\<close>.
\<close>

definition upper_char :: "char \<Rightarrow> nat list" where
  "upper_char c =
     (let n = (of_char c :: nat) in
      if 97 \<le> n \<and> n \<le> 122 then [n - 32]
      else if n = 181 then [924]
      else if n = 223 then [83, 83]
      else if 224 \<le> n \<and> n \<le> 254 \<and> n \<noteq> 247 then [n - 32]
      else if n = 255 then [376]
      else [n])"

definition py_upper :: "string \<Rightarrow> nat list" where
  "py_upper s = concat (map upper_char s)"

definition py_ord :: "nat list \<Rightarrow> error + int" where
  "py_ord s = (case s of [n] \<Rightarrow> Inr (int n) | _ \<Rightarrow> Inl TypeError)"

definition py_int :: "char \<Rightarrow> error + int" where
  "py_int c =
     (let n = (of_char c :: nat) in
      if 48 \<le> n \<and> n \<le> 57 then Inr (int n - 48) else Inl ValueError)"

text \<open>The argument of \<open>convert_to_bitboard\<close> is any Python value.\<close>

datatype pyobj = PyStr string | PyInt int | PyNone

definition convert_to_bitboard :: "pyobj \<Rightarrow> error + int option" where
  "convert_to_bitboard location =
     (case location of
        PyStr s \<Rightarrow>
          if length s \<noteq> 2 then Inr None
          else
            (case py_ord (upper_char (s ! 0)) of
               Inl e \<Rightarrow> Inl e
             | Inr o1 \<Rightarrow>
                 (let file = o1 - 65 in
                  case py_int (s ! 1) of
                    Inl e \<Rightarrow> Inl e
                  | Inr d \<Rightarrow>
                      (let rank = d - 1 in
                       if file < 0 \<or> file > 7 then Inr None
                       else if rank < 0 \<or> rank > 7 then Inr None
                       else Inr (Some (push_bit (nat (8 * rank + file)) 1)))))
      | _ \<Rightarrow> Inr None)"

text \<open>
  \<open>execute_move\<close> takes two strings (its first statement calls \<open>.upper()\<close> on both).
  Printing is not modelled, except that the message for a found piece indexes
  \<open>_piece_names\<close> with \<open>_piece_moved_index\<close>.
\<close>

definition execute_move :: "nat \<Rightarrow> board \<Rightarrow> string \<Rightarrow> string \<Rightarrow> board \<times> (error + bool)" where
  "execute_move depth b move_from move_to =
     (if py_upper move_from = py_upper move_to then (b, Inr False)
      else
        (case convert_to_bitboard (PyStr move_from) of Inl e \<Rightarrow> (b, Inl e) | Inr cf \<Rightarrow>
        (case convert_to_bitboard (PyStr move_to) of Inl e \<Rightarrow> (b, Inl e) | Inr ct \<Rightarrow>
        (case cf of None \<Rightarrow> (b, Inr False) | Some move_from_bb \<Rightarrow>
        (case ct of None \<Rightarrow> (b, Inr False) | Some move_to_bb \<Rightarrow>
        (let b1 = b\<lparr>all_pieces_bb := all_pieces_bb b AND NOT move_from_bb\<rparr> in
         (case find_valid_moves depth b1 move_from_bb of
           (b2, Inl e) \<Rightarrow> (b2, Inl e)
         | (b2, Inr legal_moves) \<Rightarrow>
             (case piece_moved_index b2 of
                None \<Rightarrow> (b2\<lparr>all_pieces_bb := all_pieces_bb b2 OR move_from_bb\<rparr>, Inr False)
              | Some i \<Rightarrow>
                  (case py_index piece_names i of
                     Inl e \<Rightarrow> (b2, Inl e)
                   | Inr name \<Rightarrow>
                       (if move_to_bb AND legal_moves = 0
                        then (b2\<lparr>all_pieces_bb := all_pieces_bb b2 OR move_from_bb\<rparr>, Inr False)
                        else
                          (case update_bitboards b2 move_from_bb move_to_bb of
                             (b3, Inl e) \<Rightarrow> (b3, Inl e)
                           | (b3, Inr u) \<Rightarrow> (b3, Inr True))))))))))))"

section \<open>Data model of \<open>chessVar.py\<close>\<close>

datatype game_status = UNFINISHED | WHITE_WON | BLACK_WON

text \<open>The display board of \<open>ChessVar\<close> is rendering state and is left out; the other
  three fields are kept.\<close>

record chessvar =
  game_state :: game_status
  previous_move :: "(side \<times> string \<times> string \<times> string \<times> string option) option"
  cv_board :: board

definition new_game :: chessvar where
  "new_game = \<lparr> game_state = UNFINISHED, previous_move = None, cv_board = setup_new_board \<rparr>"

definition get_game_state :: "chessvar \<Rightarrow> game_status" where
  "get_game_state g =
     (case get_pieces (cv_board g) of
        (white_pieces, black_pieces) \<Rightarrow>
          if list_ex (\<lambda>piece_type. piece_type = 0) white_pieces then BLACK_WON
          else if list_ex (\<lambda>piece_type. piece_type = 0) black_pieces then WHITE_WON
          else UNFINISHED)"

text \<open>The part of \<open>update_display\<close> that touches the board object and
  \<open>_previous_move\<close>.\<close>

definition update_display :: "chessvar \<Rightarrow> string \<Rightarrow> string \<Rightarrow> chessvar \<times> (error + unit)" where
  "update_display g move_from move_to =
     (let turn = get_turn (cv_board g) in
      case get_piece_moved (cv_board g) of
        (b1, Inl e) \<Rightarrow> (g\<lparr>cv_board := b1\<rparr>, Inl e)
      | (b1, Inr moved) \<Rightarrow>
          (case get_piece_captured b1 of
             (b2, Inl e) \<Rightarrow> (g\<lparr>cv_board := b2\<rparr>, Inl e)
           | (b2, Inr captured) \<Rightarrow>
               (g\<lparr>cv_board := b2,
                   previous_move := Some (turn, moved, move_from, move_to, captured)\<rparr>,
                Inr ())))"

definition make_move :: "nat \<Rightarrow> chessvar \<Rightarrow> string \<Rightarrow> string \<Rightarrow> chessvar \<times> (error + bool)" where
  "make_move depth g move_from move_to =
     (if get_game_state g \<noteq> UNFINISHED then (g, Inr False)
      else
        case execute_move depth (cv_board g) move_from move_to of
          (b1, Inl e) \<Rightarrow> (g\<lparr>cv_board := b1\<rparr>, Inl e)
        | (b1, Inr ok) \<Rightarrow>
            if \<not> ok then (g\<lparr>cv_board := b1\<rparr>, Inr False)
            else
              (let g1 = g\<lparr>cv_board := b1\<rparr>;
                   g2 = g1\<lparr>game_state := get_game_state g1\<rparr>
               in case update_display g2 move_from move_to of
                    (g3, Inl e) \<Rightarrow> (g3, Inl e)
                  | (g3, Inr u) \<Rightarrow> (g3\<lparr>cv_board := set_next_turn (cv_board g3)\<rparr>, Inr True)))"

section \<open>Board geometry for stating the properties\<close>

text \<open>
  Square \<open>k\<close> (bit \<open>k\<close> of a bitboard) has file \<open>k mod 8\<close> (0 is file A) and rank
  \<open>k div 8\<close> (0 is rank 1). The eight directions carry the numbers \<open>find_valid_moves\<close>
  passes to \<open>generate_moves\<close>: 8 North, -8 South, 1 East, -1 West, 7 Northwest,
  9 Northeast, -7 Southeast, -9 Southwest.
\<close>

definition file_of :: "nat \<Rightarrow> int" where
  "file_of k = int (k mod 8)"

definition rank_of :: "nat \<Rightarrow> int" where
  "rank_of k = int (k div 8)"

datatype direction =
  North | South | East | West | Northeast | Northwest | Southeast | Southwest

fun direction_code :: "direction \<Rightarrow> int" where
  "direction_code North = 8"
| "direction_code South = - 8"
| "direction_code East = 1"
| "direction_code West = - 1"
| "direction_code Northwest = 7"
| "direction_code Northeast = 9"
| "direction_code Southeast = - 7"
| "direction_code Southwest = - 9"

fun dfile :: "direction \<Rightarrow> int" where
  "dfile North = 0" | "dfile South = 0" | "dfile East = 1" | "dfile West = - 1"
| "dfile Northeast = 1" | "dfile Northwest = - 1" | "dfile Southeast = 1" | "dfile Southwest = - 1"

fun drank :: "direction \<Rightarrow> int" where
  "drank North = 1" | "drank South = - 1" | "drank East = 0" | "drank West = 0"
| "drank Northeast = 1" | "drank Northwest = 1" | "drank Southeast = - 1" | "drank Southwest = - 1"

text \<open>One step on the board: \<open>None\<close> when the step would cross the board edge.\<close>

definition step_square :: "direction \<Rightarrow> nat \<Rightarrow> nat option" where
  "step_square d k =
     (let f = file_of k + dfile d; r = rank_of k + drank d in
      if 0 \<le> f \<and> f \<le> 7 \<and> 0 \<le> r \<and> r \<le> 7 then Some (nat (8 * r + f)) else None)"

text \<open>
  The ray as the specification words it: step one square at a time from the origin, stop
  before a step that would cross the edge, and stop on the first occupied square, which is
  part of the ray.
\<close>

function ray_squares :: "(nat \<Rightarrow> bool) \<Rightarrow> direction \<Rightarrow> nat \<Rightarrow> nat list" where
  "ray_squares occupied d k =
     (case step_square d k of
        None \<Rightarrow> []
      | Some k' \<Rightarrow> k' # (if occupied k' then [] else ray_squares occupied d k'))"
  by pat_completeness auto
termination
proof (relation "measure (\<lambda>(occupied, d, k).
          nat (if drank d > 0 then 64 - rank_of k
               else if drank d < 0 then rank_of k
               else if dfile d > 0 then 8 - file_of k
               else file_of k))")
  show "wf (measure (\<lambda>(occupied, d, k).
          nat (if drank d > 0 then 64 - rank_of k
               else if drank d < 0 then rank_of k
               else if dfile d > 0 then 8 - file_of k
               else file_of k)))"
    by simp
next
  fix occupied :: "nat \<Rightarrow> bool" and d k x2
  assume "step_square d k = Some x2"
  then have ok: "0 \<le> file_of k + dfile d" "file_of k + dfile d \<le> 7"
     "0 \<le> rank_of k + drank d" "rank_of k + drank d \<le> 7"
     and x2: "x2 = nat (8 * (rank_of k + drank d) + (file_of k + dfile d))"
    by (auto simp: step_square_def Let_def split: if_splits)
  obtain f' r' where fr: "file_of k + dfile d = int f'" "rank_of k + drank d = int r'"
    using ok nonneg_int_cases by metis
  have lt: "f' < 8" using ok fr by simp
  have "8 * (rank_of k + drank d) + (file_of k + dfile d) = int (8 * r' + f')"
    unfolding fr by simp
  then have eq: "x2 = 8 * r' + f'" unfolding x2 by (simp only: nat_int)
  have "file_of (8 * r' + f') = int f'" and "rank_of (8 * r' + f') = int r'"
    using lt by (simp_all add: file_of_def rank_of_def)
  then have f: "file_of x2 = file_of k + dfile d" and r: "rank_of x2 = rank_of k + drank d"
    unfolding eq fr by blast+
  show "((occupied, d, x2), occupied, d, k) \<in> measure (\<lambda>(occupied, d, k).
          nat (if drank d > 0 then 64 - rank_of k
               else if drank d < 0 then rank_of k
               else if dfile d > 0 then 8 - file_of k
               else file_of k))"
    using ok f r by (cases d) (auto simp: file_of_def rank_of_def)
qed

text \<open>The call \<open>generate_moves\<close> makes for one direction, with no move limit.\<close>

definition cast_ray :: "nat \<Rightarrow> int \<Rightarrow> int \<Rightarrow> direction \<Rightarrow> error + int" where
  "cast_ray depth pieces origin_bb d =
     (if direction_code d > 0
      then recc_left_shift depth pieces origin_bb (direction_code d) None
      else recc_right_shift depth pieces origin_bb \<bar>direction_code d\<bar> None)"

text \<open>The bitboard of a list of squares, and a ray cut off by a move limit.\<close>

fun squares_mask :: "nat list \<Rightarrow> int" where
  "squares_mask [] = 0"
| "squares_mask (j # js) = push_bit j 1 OR squares_mask js"

definition limit_take :: "int option \<Rightarrow> 'a list \<Rightarrow> 'a list" where
  "limit_take move_limit xs = (case move_limit of None \<Rightarrow> xs | Some c \<Rightarrow> take (nat c) xs)"

definition rays :: "int \<Rightarrow> direction list \<Rightarrow> int option \<Rightarrow> nat \<Rightarrow> nat list" where
  "rays pieces ds lim k = concat (map (\<lambda>d. limit_take lim (ray_squares (bit pieces) d k)) ds)"

text \<open>Number of steps to the edge: the length of the ray on an empty board.\<close>

definition edge_distance :: "direction \<Rightarrow> nat \<Rightarrow> nat" where
  "edge_distance d k = length (ray_squares (\<lambda>_. False) d k)"

text \<open>The board squares (bits 0 to 63) of a bitboard.\<close>

definition squares_of :: "int \<Rightarrow> nat list" where
  "squares_of m = filter (bit m) [0..<64]"

text \<open>An L-shaped offset: one and two, or two and one, in file and rank.\<close>

definition knight_offset :: "nat \<Rightarrow> nat \<Rightarrow> bool" where
  "knight_offset k j =
     ((\<bar>file_of j - file_of k\<bar> = 1 \<and> \<bar>rank_of j - rank_of k\<bar> = 2)
      \<or> (\<bar>file_of j - file_of k\<bar> = 2 \<and> \<bar>rank_of j - rank_of k\<bar> = 1))"

text \<open>
  A White Rook on D4 (square 27) and nothing else, White to move, with the origin already
  taken out of \<open>_all_pieces_bb\<close> as \<open>execute_move\<close> does before it calls
  \<open>find_valid_moves\<close>.
\<close>

definition lone_rook_board :: board where
  "lone_rook_board =
     \<lparr> current_turn = White,
       piece_moved_index = None,
       piece_captured_index = None,
       white_pieces_list = [0, push_bit 27 1, 0, 0, 0, 0],
       black_pieces_list = [0, 0, 0, 0, 0, 0],
       all_white_pieces_bb = push_bit 27 1,
       all_black_pieces_bb = 0,
       all_pieces_bb = 0 \<rparr>"


text \<open>
  The names \<open>find_valid_moves\<close> and \<open>update_bitboards\<close> give to the side to move's
  list and aggregate mask, and to the opponent's.
\<close>

definition pieces_to_search :: "board \<Rightarrow> int list" where
  "pieces_to_search b =
     (if current_turn b = White then white_pieces_list b else black_pieces_list b)"

definition friendly_pieces_bb :: "board \<Rightarrow> int" where
  "friendly_pieces_bb b =
     (if current_turn b = White then all_white_pieces_bb b else all_black_pieces_bb b)"

definition opponents_pieces_bb :: "board \<Rightarrow> int" where
  "opponents_pieces_bb b =
     (if current_turn b = White then all_black_pieces_bb b else all_white_pieces_bb b)"

text \<open>
  The pawn rule as the specification words it. Forward is North for White and South for
  Black; the starting rank is rank 2 (index 1) for White and rank 7 (index 6) for Black. A
  destination is the square one step forward if it is unoccupied; the square two steps
  forward if the pawn is on its starting rank and both squares are unoccupied; or a square
  one step diagonally forward that holds an opposing piece.
\<close>

definition pawn_forward :: "side \<Rightarrow> direction" where
  "pawn_forward s = (if s = White then North else South)"

definition pawn_diagonals :: "side \<Rightarrow> direction \<times> direction" where
  "pawn_diagonals s = (if s = White then (Northwest, Northeast) else (Southeast, Southwest))"

definition on_start_rank :: "side \<Rightarrow> nat \<Rightarrow> bool" where
  "on_start_rank s k = (if s = White then rank_of k = 1 else rank_of k = 6)"

definition pawn_destination ::
  "side \<Rightarrow> (nat \<Rightarrow> bool) \<Rightarrow> (nat \<Rightarrow> bool) \<Rightarrow> nat \<Rightarrow> nat \<Rightarrow> bool" where
  "pawn_destination s occupied opposing k j =
     ((step_square (pawn_forward s) k = Some j \<and> \<not> occupied j)
      \<or> (on_start_rank s k
          \<and> (case step_square (pawn_forward s) k of
                None \<Rightarrow> False
              | Some k1 \<Rightarrow>
                  \<not> occupied k1 \<and> step_square (pawn_forward s) k1 = Some j \<and> \<not> occupied j))
      \<or> ((step_square (fst (pawn_diagonals s)) k = Some j
           \<or> step_square (snd (pawn_diagonals s)) k = Some j) \<and> opposing j))"

text \<open>The starting position with the pawn on E2 (square 12) taken out of
  \<open>_all_pieces_bb\<close>, as \<open>execute_move\<close> does before it calls \<open>find_valid_moves\<close>.\<close>

definition e2_pawn_board :: board where
  "e2_pawn_board = setup_new_board\<lparr>all_pieces_bb := all_pieces_bb setup_new_board AND NOT (push_bit 12 1)\<rparr>"

text \<open>The list \<open>update_bitboards\<close> calls \<open>opponents_pieces_list\<close>.\<close>

definition opponents_pieces_list :: "board \<Rightarrow> int list" where
  "opponents_pieces_list b =
     (if current_turn b = White then black_pieces_list b else white_pieces_list b)"

text \<open>One visit of the loop, as a function of the board.\<close>

definition capture_at :: "board \<Rightarrow> int \<Rightarrow> nat \<Rightarrow> board" where
  "capture_at b t index =
     (if t AND (opponents_pieces_list b ! index) = 0 then b
      else if current_turn b = White then
        b\<lparr>piece_captured_index := Some index,
          black_pieces_list :=
            (black_pieces_list b)[index := (black_pieces_list b ! index) AND NOT t],
          all_black_pieces_bb := all_black_pieces_bb b AND NOT t\<rparr>
      else
        b\<lparr>piece_captured_index := Some index,
          white_pieces_list :=
            (white_pieces_list b)[index := (white_pieces_list b ! index) AND NOT t],
          all_white_pieces_bb := all_white_pieces_bb b AND NOT t\<rparr>)"

text \<open>The state invariants: the union of a list of masks, pairwise disjointness, and
  their conjunction over a board.\<close>

definition union_bb :: "int list \<Rightarrow> int" where
  "union_bb xs = foldr (OR) xs 0"

definition pairwise_disjoint :: "int list \<Rightarrow> bool" where
  "pairwise_disjoint xs \<longleftrightarrow>
     (\<forall>n<length xs. \<forall>m<length xs. n \<noteq> m \<longrightarrow> xs ! n AND xs ! m = 0)"

definition board_inv :: "board \<Rightarrow> bool" where
  "board_inv b \<longleftrightarrow>
     length (white_pieces_list b) = 6 \<and> length (black_pieces_list b) = 6
     \<and> pairwise_disjoint (white_pieces_list b) \<and> pairwise_disjoint (black_pieces_list b)
     \<and> all_white_pieces_bb b = union_bb (white_pieces_list b)
     \<and> all_black_pieces_bb b = union_bb (black_pieces_list b)
     \<and> all_pieces_bb b = all_white_pieces_bb b OR all_black_pieces_bb b
     \<and> all_white_pieces_bb b AND all_black_pieces_bb b = 0"

text \<open>The board after the first half of \<open>update_bitboards\<close>: the mover's own masks and
  the all-pieces mask.\<close>

definition move_own :: "board \<Rightarrow> nat \<Rightarrow> int \<Rightarrow> int \<Rightarrow> board" where
  "move_own b i f t =
     (if current_turn b = White then
        b\<lparr>white_pieces_list :=
            (white_pieces_list b)[i := ((white_pieces_list b ! i) AND NOT f) OR t],
          all_white_pieces_bb := (all_white_pieces_bb b AND NOT f) OR t,
          all_pieces_bb := (all_pieces_bb b AND NOT f) OR t\<rparr>
      else
        b\<lparr>black_pieces_list :=
            (black_pieces_list b)[i := ((black_pieces_list b ! i) AND NOT f) OR t],
          all_black_pieces_bb := (all_black_pieces_bb b AND NOT f) OR t,
          all_pieces_bb := (all_pieces_bb b AND NOT f) OR t\<rparr>)"

text \<open>Boards reached from the starting position by successful moves and turn changes,
  with any number of stack frames.\<close>

inductive reachable :: "board \<Rightarrow> bool" where
  reachable_init: "reachable setup_new_board"
| reachable_move:
    "reachable b \<Longrightarrow> execute_move depth b move_from move_to = (b', Inr True) \<Longrightarrow> reachable b'"
| reachable_turn: "reachable b \<Longrightarrow> reachable (set_next_turn b)"

text \<open>The board after 1. e2-e4 d7-d5 2. e4xd5, before the turn passes to Black.\<close>

definition after_e4_d5_exd5 :: board where
  "after_e4_d5_exd5 =
     fst (execute_move 8
       (set_next_turn (fst (execute_move 8
          (set_next_turn (fst (execute_move 8 setup_new_board ''e2'' ''e4'')))
          ''d7'' ''d5'')))
       ''e4'' ''d5'')"

text \<open>The same game after Black answers 2. ... a7-a6, a move that captures nothing.\<close>

definition after_exd5_a6 :: board where
  "after_exd5_a6 = fst (execute_move 8 (set_next_turn after_e4_d5_exd5) ''a7'' ''a6'')"

text \<open>A game played through \<open>make_move\<close>, one move per pair of labels.\<close>

fun play :: "nat \<Rightarrow> chessvar \<Rightarrow> (string \<times> string) list \<Rightarrow> chessvar" where
  "play depth g [] = g"
| "play depth g ((move_from, move_to) # moves) =
     play depth (fst (make_move depth g move_from move_to)) moves"

text \<open>The board after ten moves that open the A file between the White Rook on A1 and
  the Black Rook on A8; White is to move.\<close>

definition rook_board :: board where
  "rook_board = cv_board (play 8 new_game
     [(''a2'', ''a4''), (''b7'', ''b5''), (''a4'', ''b5''), (''a7'', ''a6''), (''b5'', ''a6''),
      (''h7'', ''h6''), (''a6'', ''a7''), (''h6'', ''h5''), (''a7'', ''b8''), (''h5'', ''h4'')])"

text \<open>Game states reached from a new game through \<open>make_move\<close>, whatever each call
  returned or raised.\<close>

inductive reachable_game :: "chessvar \<Rightarrow> bool" where
  reachable_new: "reachable_game new_game"
| reachable_make_move:
    "reachable_game g \<Longrightarrow> reachable_game (fst (make_move depth g move_from move_to))"

text \<open>The test of \<open>get_game_state\<close> on one side's list: some mask is zero.\<close>

definition extinct :: "int list \<Rightarrow> bool" where
  "extinct masks = list_ex (\<lambda>piece_type. piece_type = 0) masks"

definition game_inv :: "board \<Rightarrow> bool" where
  "game_inv b \<longleftrightarrow>
     length (white_pieces_list b) = 6 \<and> length (black_pieces_list b) = 6
     \<and> \<not> (extinct (white_pieces_list b) \<and> extinct (black_pieces_list b))"

text \<open>A game in which White's seventh half-move, knight takes queen on D5, removes
  Black's only queen.\<close>

definition queen_lost_game :: chessvar where
  "queen_lost_game = play 8 new_game
     [(''e2'', ''e4''), (''d7'', ''d5''), (''e4'', ''d5''), (''d8'', ''d5''), (''b1'', ''c3''),
      (''a7'', ''a6''), (''c3'', ''d5'')]"

text \<open>The board after 1. e2-e4 and the turn change: Black to move.\<close>

definition after_e4_black_to_move :: board where
  "after_e4_black_to_move = set_next_turn (fst (execute_move 8 setup_new_board ''e2'' ''e4''))"

text \<open>The part of the state invariants that concerns the two sides' masks; it does not
  mention \<open>_all_pieces_bb\<close>.\<close>

definition sides_inv :: "board \<Rightarrow> bool" where
  "sides_inv b \<longleftrightarrow>
     length (white_pieces_list b) = 6 \<and> length (black_pieces_list b) = 6
     \<and> pairwise_disjoint (white_pieces_list b) \<and> pairwise_disjoint (black_pieces_list b)
     \<and> all_white_pieces_bb b = union_bb (white_pieces_list b)
     \<and> all_black_pieces_bb b = union_bb (black_pieces_list b)
     \<and> all_white_pieces_bb b AND all_black_pieces_bb b = 0"

text \<open>Boards reached from the starting position through the calls \<open>ChessVar\<close> makes on
  its board, whatever \<open>execute_move\<close> returned or raised, with any number of stack
  frames.\<close>

inductive reachable_call :: "board \<Rightarrow> bool" where
  call_init: "reachable_call setup_new_board"
| call_execute_move:
    "reachable_call b \<Longrightarrow> reachable_call (fst (execute_move depth b move_from move_to))"
| call_set_next_turn: "reachable_call b \<Longrightarrow> reachable_call (set_next_turn b)"
| call_get_piece_moved: "reachable_call b \<Longrightarrow> reachable_call (fst (get_piece_moved b))"
| call_get_piece_captured: "reachable_call b \<Longrightarrow> reachable_call (fst (get_piece_captured b))"

text \<open>The new game after the rejected call \<open>make_move("d3", "d4")\<close>: D3 is empty.\<close>

definition after_d3_d4_rejected :: chessvar where
  "after_d3_d4_rejected = fst (make_move 8 new_game ''d3'' ''d4'')"

text \<open>The board after the rejected call \<open>execute_move("e4", "e5")\<close> on the starting
  position, then 1. d2-d4 e7-e5, with White to move.\<close>

definition after_rejected_d4_e5 :: board where
  "after_rejected_d4_e5 =
     set_next_turn (fst (execute_move 8
       (set_next_turn (fst (execute_move 8
          (fst (execute_move 8 setup_new_board ''e4'' ''e5''))
          ''d2'' ''d4'')))
       ''e7'' ''e5''))"

section \<open>Single bits, masks and rays\<close>

declare ray_squares.simps [simp del]

lemma bit_single: "bit (push_bit k (1::int)) j \<longleftrightarrow> j = k"
  by (auto simp: bit_exp_iff)

lemma single_and_nonzero: "push_bit k (1::int) AND m \<noteq> 0 \<longleftrightarrow> bit m k"
  using and_exp_eq_0_iff_not_bit[of m k] by (simp add: and.commute)

lemma bit_squares_mask: "bit (squares_mask js) j \<longleftrightarrow> j \<in> set js"
  by (induction js) (auto simp: bit_or_iff bit_exp_iff)

lemma push_single: "push_bit s (push_bit k (1::int)) = push_bit (k + s) 1"
  by (simp add: push_bit_eq_mult power_add)

lemma drop_single: "s \<le> k \<Longrightarrow> drop_bit s (push_bit k (1::int)) = push_bit (k - s) 1"
  by (simp add: drop_bit_exp_eq)

lemma step_left_all:
  "\<forall>k\<in>set [0..<64].
     step_square North k = (if bit (0xff00000000000000::int) k then None else Some (k + 8))
   \<and> step_square East k = (if bit (0x8080808080808080::int) k then None else Some (k + 1))
   \<and> step_square Northwest k = (if bit (0xff01010101010101::int) k then None else Some (k + 7))
   \<and> step_square Northeast k = (if bit (0xff80808080808080::int) k then None else Some (k + 9))"
  by code_simp

lemma step_right_all:
  "\<forall>k\<in>set [0..<64].
     step_square South k = (if bit (0xff::int) k then None else Some (k - 8))
   \<and> step_square West k = (if bit (0x101010101010101::int) k then None else Some (k - 1))
   \<and> step_square Southeast k = (if bit (0x80808080808080ff::int) k then None else Some (k - 7))
   \<and> step_square Southwest k = (if bit (0x1010101010101ff::int) k then None else Some (k - 9))
   \<and> (bit (0xff::int) k \<or> 8 \<le> k)
   \<and> (bit (0x101010101010101::int) k \<or> 1 \<le> k)
   \<and> (bit (0x80808080808080ff::int) k \<or> 7 \<le> k)
   \<and> (bit (0x1010101010101ff::int) k \<or> 9 \<le> k)"
  by code_simp

lemma step_left:
  assumes "k < 64"
  shows "step_square North k = (if bit (0xff00000000000000::int) k then None else Some (k + 8))"
    and "step_square East k = (if bit (0x8080808080808080::int) k then None else Some (k + 1))"
    and "step_square Northwest k = (if bit (0xff01010101010101::int) k then None else Some (k + 7))"
    and "step_square Northeast k = (if bit (0xff80808080808080::int) k then None else Some (k + 9))"
proof -
  have "k \<in> set [0..<64]" using assms by simp
  from step_left_all[THEN bspec, OF this]
  show "step_square North k = (if bit (0xff00000000000000::int) k then None else Some (k + 8))"
    and "step_square East k = (if bit (0x8080808080808080::int) k then None else Some (k + 1))"
    and "step_square Northwest k = (if bit (0xff01010101010101::int) k then None else Some (k + 7))"
    and "step_square Northeast k = (if bit (0xff80808080808080::int) k then None else Some (k + 9))"
    by blast+
qed

lemma step_right:
  assumes "k < 64"
  shows "step_square South k = (if bit (0xff::int) k then None else Some (k - 8))"
    and "step_square West k = (if bit (0x101010101010101::int) k then None else Some (k - 1))"
    and "step_square Southeast k = (if bit (0x80808080808080ff::int) k then None else Some (k - 7))"
    and "step_square Southwest k = (if bit (0x1010101010101ff::int) k then None else Some (k - 9))"
    and "bit (0xff::int) k \<or> 8 \<le> k"
    and "bit (0x101010101010101::int) k \<or> 1 \<le> k"
    and "bit (0x80808080808080ff::int) k \<or> 7 \<le> k"
    and "bit (0x1010101010101ff::int) k \<or> 9 \<le> k"
proof -
  have "k \<in> set [0..<64]" using assms by simp
  from step_right_all[THEN bspec, OF this]
  show "step_square South k = (if bit (0xff::int) k then None else Some (k - 8))"
    and "step_square West k = (if bit (0x101010101010101::int) k then None else Some (k - 1))"
    and "step_square Southeast k = (if bit (0x80808080808080ff::int) k then None else Some (k - 7))"
    and "step_square Southwest k = (if bit (0x1010101010101ff::int) k then None else Some (k - 9))"
    and "bit (0xff::int) k \<or> 8 \<le> k"
    and "bit (0x101010101010101::int) k \<or> 1 \<le> k"
    and "bit (0x80808080808080ff::int) k \<or> 7 \<le> k"
    and "bit (0x1010101010101ff::int) k \<or> 9 \<le> k"
    by blast+
qed

lemma step_on_board: "step_square d k = Some k' \<Longrightarrow> k' < 64"
proof -
  assume "step_square d k = Some k'"
  then obtain f r where "0 \<le> f" "f \<le> 7" "0 \<le> r" "r \<le> (7::int)" "k' = nat (8 * r + f)"
    by (auto simp: step_square_def Let_def split: if_splits)
  then show ?thesis by auto
qed

lemma collides_single:
  "collides (Some m) (push_bit k 1) pieces \<longleftrightarrow> bit m k \<or> bit pieces k"
  unfolding collides_def option.case single_and_nonzero ..

lemma step_collide:
  assumes "boundary = Some m" and "step = (if bit m k then None else Some k2)"
  shows "(collides boundary (push_bit k 1) pieces \<longleftrightarrow> step = None \<or> bit pieces k)
         \<and> (step = Some k' \<longrightarrow> k' = k2)"
  unfolding assms collides_single by (cases "bit m k"; simp)

lemma left_boundary_simps:
  "left_boundary 8 = Some 0xff00000000000000"
  "left_boundary 1 = Some 0x8080808080808080"
  "left_boundary 7 = Some 0xff01010101010101"
  "left_boundary 9 = Some 0xff80808080808080"
  by (simp_all add: left_boundary_def)

lemma right_boundary_simps:
  "right_boundary 8 = Some 0xff"
  "right_boundary 1 = Some 0x101010101010101"
  "right_boundary 7 = Some 0x80808080808080ff"
  "right_boundary 9 = Some 0x1010101010101ff"
  by (simp_all add: right_boundary_def)

text \<open>What the two shift functions test and where they go, for the eight directions.\<close>

lemma left_step:
  assumes "k < 64" "0 < direction_code d"
  shows "collides (left_boundary (direction_code d)) (push_bit k 1) pieces
           \<longleftrightarrow> step_square d k = None \<or> bit pieces k"
    and "step_square d k = Some k' \<Longrightarrow> k' = k + nat (direction_code d)"
proof -
  have "(collides (left_boundary (direction_code d)) (push_bit k 1) pieces
           \<longleftrightarrow> step_square d k = None \<or> bit pieces k)
        \<and> (step_square d k = Some k' \<longrightarrow> k' = k + nat (direction_code d))"
  proof (cases d)
    case North
    show ?thesis unfolding North direction_code.simps
      using step_collide[OF left_boundary_simps(1) step_left(1)[OF assms(1)], of pieces k']
      by simp
  next
    case East
    show ?thesis unfolding East direction_code.simps
      using step_collide[OF left_boundary_simps(2) step_left(2)[OF assms(1)], of pieces k']
      by simp
  next
    case Northwest
    show ?thesis unfolding Northwest direction_code.simps
      using step_collide[OF left_boundary_simps(3) step_left(3)[OF assms(1)], of pieces k']
      by simp
  next
    case Northeast
    show ?thesis unfolding Northeast direction_code.simps
      using step_collide[OF left_boundary_simps(4) step_left(4)[OF assms(1)], of pieces k']
      by simp
  qed (use assms(2) in simp_all)
  then show "collides (left_boundary (direction_code d)) (push_bit k 1) pieces
           \<longleftrightarrow> step_square d k = None \<or> bit pieces k"
    and "step_square d k = Some k' \<Longrightarrow> k' = k + nat (direction_code d)"
    by blast+
qed

lemma right_step:
  assumes "k < 64" "direction_code d < 0"
  shows "collides (right_boundary \<bar>direction_code d\<bar>) (push_bit k 1) pieces
           \<longleftrightarrow> step_square d k = None \<or> bit pieces k"
    and "step_square d k = Some k' \<Longrightarrow> k' = k - nat \<bar>direction_code d\<bar>"
    and "step_square d k = Some k' \<Longrightarrow> nat \<bar>direction_code d\<bar> \<le> k"
proof -
  have "(collides (right_boundary \<bar>direction_code d\<bar>) (push_bit k 1) pieces
           \<longleftrightarrow> step_square d k = None \<or> bit pieces k)
        \<and> (step_square d k = Some k' \<longrightarrow> k' = k - nat \<bar>direction_code d\<bar>)
        \<and> (step_square d k = Some k' \<longrightarrow> nat \<bar>direction_code d\<bar> \<le> k)"
  proof (cases d)
    case South
    show ?thesis unfolding South direction_code.simps
      using step_collide[OF right_boundary_simps(1) step_right(1)[OF assms(1)], of pieces k']
        step_right(1,5)[OF assms(1)]
      by (cases "bit (0xff::int) k"; simp)
  next
    case West
    show ?thesis unfolding West direction_code.simps
      using step_collide[OF right_boundary_simps(2) step_right(2)[OF assms(1)], of pieces k']
        step_right(2,6)[OF assms(1)]
      by (cases "bit (0x101010101010101::int) k"; simp)
  next
    case Southeast
    show ?thesis unfolding Southeast direction_code.simps
      using step_collide[OF right_boundary_simps(3) step_right(3)[OF assms(1)], of pieces k']
        step_right(3,7)[OF assms(1)]
      by (cases "bit (0x80808080808080ff::int) k"; simp)
  next
    case Southwest
    show ?thesis unfolding Southwest direction_code.simps
      using step_collide[OF right_boundary_simps(4) step_right(4)[OF assms(1)], of pieces k']
        step_right(4,8)[OF assms(1)]
      by (cases "bit (0x1010101010101ff::int) k"; simp)
  qed (use assms(2) in simp_all)
  then show "collides (right_boundary \<bar>direction_code d\<bar>) (push_bit k 1) pieces
           \<longleftrightarrow> step_square d k = None \<or> bit pieces k"
    and "step_square d k = Some k' \<Longrightarrow> k' = k - nat \<bar>direction_code d\<bar>"
    and "step_square d k = Some k' \<Longrightarrow> nat \<bar>direction_code d\<bar> \<le> k"
    by blast+
qed

lemma ray_squares_None: "step_square d k = None \<Longrightarrow> ray_squares occupied d k = []"
  by (subst ray_squares.simps) simp

lemma ray_squares_Some:
  "step_square d k = Some k' \<Longrightarrow>
   ray_squares occupied d k = k' # (if occupied k' then [] else ray_squares occupied d k')"
  by (subst ray_squares.simps) simp

lemma edge_distance_step:
  "step_square d k = Some k' \<Longrightarrow> edge_distance d k = Suc (edge_distance d k')"
  unfolding edge_distance_def by (subst ray_squares.simps) simp

lemma edge_distance_all:
  "\<forall>k\<in>set [0..<64]. \<forall>d\<in>set [North, South, East, West, Northeast, Northwest, Southeast, Southwest].
     edge_distance d k \<le> 7"
  by code_simp

lemma edge_distance_le: "k < 64 \<Longrightarrow> edge_distance d k \<le> 7"
proof -
  assume "k < 64"
  then have "k \<in> set [0..<64]" by simp
  moreover have "d \<in> set [North, South, East, West, Northeast, Northwest, Southeast, Southwest]"
    by (cases d) simp_all
  ultimately show ?thesis using edge_distance_all by blast
qed

lemma limit_take_Nil: "limit_take lim [] = []"
  by (simp add: limit_take_def split: option.splits)

lemma limit_take_reached: "limit_reached lim \<Longrightarrow> limit_take lim xs = []"
  by (auto simp: limit_take_def limit_reached_def split: option.splits)

lemma limit_take_Cons:
  "\<not> limit_reached lim \<Longrightarrow>
   limit_take lim (x # xs) = x # limit_take (map_option (\<lambda>c. c - 1) lim) xs"
  by (auto simp: limit_take_def limit_reached_def take_Cons nat_diff_distrib split: option.splits nat.splits)

lemma recc_left_ray:
  assumes "0 < direction_code d"
  shows "k < 64 \<Longrightarrow> edge_distance d k < depth \<Longrightarrow>
         recc_left_shift depth pieces (push_bit k 1) (direction_code d) lim
           = Inr (if bit pieces k then 0
                  else squares_mask (limit_take lim (ray_squares (bit pieces) d k)))"
proof (induction depth arbitrary: k lim)
  case 0
  then show ?case by simp
next
  case (Suc depth)
  note col = left_step(1)[OF Suc.prems(1) assms, of pieces]
  show ?case
  proof (cases "limit_reached lim \<or> step_square d k = None \<or> bit pieces k")
    case True
    then have "limit_reached lim
        \<or> collides (left_boundary (direction_code d)) (push_bit k 1) pieces"
      using col by blast
    then have "recc_left_shift (Suc depth) pieces (push_bit k 1) (direction_code d) lim = Inr 0"
      by auto
    moreover have "(if bit pieces k then 0
         else squares_mask (limit_take lim (ray_squares (bit pieces) d k))) = 0"
      using True by (auto simp: ray_squares_None limit_take_Nil limit_take_reached)
    ultimately show ?thesis by simp
  next
    case False
    then obtain k' where st: "step_square d k = Some k'" and free: "\<not> bit pieces k"
      and nl: "\<not> limit_reached lim" by auto
    have k': "k' = k + nat (direction_code d)" using left_step(2)[OF Suc.prems(1) assms st] .
    have on: "k' < 64" using st by (rule step_on_board)
    have "edge_distance d k' < depth" using Suc.prems(2) edge_distance_step[OF st] by simp
    from Suc.IH[OF on this]
    have ih: "recc_left_shift depth pieces (push_bit k' 1) (direction_code d)
                (map_option (\<lambda>c. c - 1) lim)
           = Inr (if bit pieces k' then 0
                  else squares_mask (limit_take (map_option (\<lambda>c. c - 1) lim)
                         (ray_squares (bit pieces) d k')))" .
    have nc: "\<not> collides (left_boundary (direction_code d)) (push_bit k 1) pieces"
      using col False by simp
    have dest: "nat (direction_code d) + k = k'"
      unfolding k' by simp
    have "recc_left_shift (Suc depth) pieces (push_bit k 1) (direction_code d) lim
          = Inr (push_bit k' 1 OR (if bit pieces k' then 0
                  else squares_mask (limit_take (map_option (\<lambda>c. c - 1) lim)
                         (ray_squares (bit pieces) d k'))))"
      using nc nl assms by (simp add: Let_def dest ih del: push_bit_of_1)
    then show ?thesis using free nl
      by (simp add: ray_squares_Some[OF st] limit_take_Cons limit_take_Nil del: push_bit_of_1)
  qed
qed

lemma recc_right_ray:
  assumes "direction_code d < 0"
  shows "k < 64 \<Longrightarrow> edge_distance d k < depth \<Longrightarrow>
         recc_right_shift depth pieces (push_bit k 1) \<bar>direction_code d\<bar> lim
           = Inr (if bit pieces k then 0
                  else squares_mask (limit_take lim (ray_squares (bit pieces) d k)))"
proof (induction depth arbitrary: k lim)
  case 0
  then show ?case by simp
next
  case (Suc depth)
  note col = right_step(1)[OF Suc.prems(1) assms, of pieces]
  show ?case
  proof (cases "limit_reached lim \<or> step_square d k = None \<or> bit pieces k")
    case True
    then have "limit_reached lim
        \<or> collides (right_boundary \<bar>direction_code d\<bar>) (push_bit k 1) pieces"
      using col by blast
    then have "recc_right_shift (Suc depth) pieces (push_bit k 1) \<bar>direction_code d\<bar> lim = Inr 0"
      by auto
    moreover have "(if bit pieces k then 0
         else squares_mask (limit_take lim (ray_squares (bit pieces) d k))) = 0"
      using True by (auto simp: ray_squares_None limit_take_Nil limit_take_reached)
    ultimately show ?thesis by simp
  next
    case False
    then obtain k' where st: "step_square d k = Some k'" and free: "\<not> bit pieces k"
      and nl: "\<not> limit_reached lim" by auto
    have k': "k' = k - nat \<bar>direction_code d\<bar>" using right_step(2)[OF Suc.prems(1) assms st] .
    have le: "nat \<bar>direction_code d\<bar> \<le> k" using right_step(3)[OF Suc.prems(1) assms st] .
    have on: "k' < 64" using st by (rule step_on_board)
    have "edge_distance d k' < depth" using Suc.prems(2) edge_distance_step[OF st] by simp
    from Suc.IH[OF on this]
    have ih: "recc_right_shift depth pieces (push_bit k' 1) \<bar>direction_code d\<bar>
                (map_option (\<lambda>c. c - 1) lim)
           = Inr (if bit pieces k' then 0
                  else squares_mask (limit_take (map_option (\<lambda>c. c - 1) lim)
                         (ray_squares (bit pieces) d k')))" .
    have nc: "\<not> collides (right_boundary \<bar>direction_code d\<bar>) (push_bit k 1) pieces"
      using col False by simp
    have dest: "drop_bit (nat \<bar>direction_code d\<bar>) (push_bit k (1::int)) = push_bit k' 1"
      unfolding k' using le by (rule drop_single)
    have "recc_right_shift (Suc depth) pieces (push_bit k 1) \<bar>direction_code d\<bar> lim
          = Inr (push_bit k' 1 OR (if bit pieces k' then 0
                  else squares_mask (limit_take (map_option (\<lambda>c. c - 1) lim)
                         (ray_squares (bit pieces) d k'))))"
      using nc nl by (simp add: Let_def dest ih del: push_bit_of_1)
    then show ?thesis using free nl
      by (simp add: ray_squares_Some[OF st] limit_take_Cons limit_take_Nil del: push_bit_of_1)
  qed
qed

lemma squares_mask_append: "squares_mask (xs @ ys) = squares_mask xs OR squares_mask ys"
  by (induction xs) (simp_all add: or.assoc del: push_bit_of_1)

lemma generate_moves_loop_rays:
  assumes "k < 64" "8 \<le> depth"
  shows "generate_moves_loop depth pieces (push_bit k 1) (map direction_code ds) lim acc
         = Inr (acc OR (if bit pieces k then 0 else squares_mask (rays pieces ds lim k)))"
proof (induction ds arbitrary: acc)
  case Nil
  show ?case by (simp add: rays_def)
next
  case (Cons d ds)
  have dist: "edge_distance d k < depth"
    using edge_distance_le[OF assms(1), of d] assms(2) by simp
  have split: "rays pieces (d # ds) lim k
      = limit_take lim (ray_squares (bit pieces) d k) @ rays pieces ds lim k"
    by (simp add: rays_def)
  show ?case
  proof (cases "0 < direction_code d")
    case True
    show ?thesis
      using True recc_left_ray[OF True assms(1) dist, of pieces lim] Cons.IH
      by (simp add: split squares_mask_append or.assoc del: push_bit_of_1)
  next
    case False
    then have neg: "direction_code d < 0" by (cases d) simp_all
    show ?thesis
      using neg recc_right_ray[OF neg assms(1) dist, of pieces lim] Cons.IH
      by (simp add: split squares_mask_append or.assoc del: push_bit_of_1)
  qed
qed

lemma generate_moves_rays:
  assumes "k < 64" "8 \<le> depth"
  shows "generate_moves depth pieces (push_bit k 1) (map direction_code ds) lim
         = Inr (if bit pieces k then 0 else squares_mask (rays pieces ds lim k))"
  unfolding generate_moves_def generate_moves_loop_rays[OF assms] by simp

lemma generate_moves_depth:
  assumes "k < 64" "8 \<le> depth"
  shows "generate_moves depth pieces (push_bit k 1) (map direction_code ds) lim
         = generate_moves 8 pieces (push_bit k 1) (map direction_code ds) lim"
  using generate_moves_rays[OF assms] generate_moves_rays[OF assms(1), of 8] by simp

lemmas generate_moves_rays_lists =
  generate_moves_rays[of _ _ _ "[North, South, East, West]", unfolded list.map direction_code.simps]
  generate_moves_rays[of _ _ _ "[Northwest, Northeast, Southeast, Southwest]", unfolded list.map direction_code.simps]
  generate_moves_rays[of _ _ _ "[North, South, East, West, Northwest, Northeast, Southeast, Southwest]", unfolded list.map direction_code.simps]
  generate_moves_rays[of _ _ _ "[North]", unfolded list.map direction_code.simps]
  generate_moves_rays[of _ _ _ "[South]", unfolded list.map direction_code.simps]
  generate_moves_rays[of _ _ _ "[Northwest, Northeast]", unfolded list.map direction_code.simps]
  generate_moves_rays[of _ _ _ "[Southeast, Southwest]", unfolded list.map direction_code.simps]

lemma generate_moves_pawn_depth:
  assumes "k < 64" "8 \<le> depth"
  shows "generate_moves_pawn depth b (push_bit k 1) = generate_moves_pawn 8 b (push_bit k 1)"
  unfolding generate_moves_pawn_def Let_def
  using assms by (cases "current_turn b") (simp_all add: generate_moves_rays_lists del: push_bit_of_1)

lemma find_valid_moves_depth:
  assumes "k < 64" "8 \<le> depth"
  shows "find_valid_moves depth b (push_bit k 1) = find_valid_moves 8 b (push_bit k 1)"
proof -
  have e: "(8::nat) \<le> 8" by simp
  show ?thesis
    unfolding find_valid_moves_def Let_def
    by (simp only: generate_moves_rays_lists[OF assms] generate_moves_rays_lists[OF assms(1) e]
          generate_moves_pawn_depth[OF assms])
qed


section \<open>Ray casting (C1)\<close>

lemma ray_squares_on_board: "j \<in> set (ray_squares occupied d k) \<Longrightarrow> j < 64"
proof (induction occupied d k rule: ray_squares.induct)
  case (1 occupied d k)
  then show ?case
    by (cases "step_square d k")
      (auto simp: ray_squares_None ray_squares_Some step_on_board split: if_splits)
qed

lemma cast_ray_exact:
  assumes "k < 64" and "\<not> bit pieces k" and "8 \<le> depth"
  shows "cast_ray depth pieces (push_bit k 1) d
         = Inr (squares_mask (ray_squares (bit pieces) d k))"
proof -
  have dist: "edge_distance d k < depth"
    using edge_distance_le[OF assms(1), of d] assms(3) by simp
  show ?thesis
  proof (cases "0 < direction_code d")
    case True
    then show ?thesis
      unfolding cast_ray_def
      using recc_left_ray[OF True assms(1) dist, of pieces None] assms(2)
      by (simp add: limit_take_def del: push_bit_of_1)
  next
    case False
    then have neg: "direction_code d < 0" by (cases d) simp_all
    show ?thesis
      unfolding cast_ray_def
      using recc_right_ray[OF neg assms(1) dist, of pieces None] assms(2) False
      by (simp add: limit_take_def del: push_bit_of_1)
  qed
qed

lemma card_squares_mask: "distinct js \<Longrightarrow> card {j. bit (squares_mask js) j} = length js"
  by (simp add: bit_squares_mask distinct_card)

lemma lone_rook_moves_8:
  "snd (find_valid_moves 8 lone_rook_board (push_bit 27 1))
   = Inr (squares_mask [3, 11, 19, 24, 25, 26, 28, 29, 30, 31, 35, 43, 51, 59])"
  by code_simp

lemma lone_rook_moves:
  assumes "8 \<le> depth"
  shows "\<exists>m. snd (find_valid_moves depth lone_rook_board (push_bit 27 1)) = Inr m
             \<and> card {j. bit m j} = 14"
proof -
  have "find_valid_moves depth lone_rook_board (push_bit 27 1)
        = find_valid_moves 8 lone_rook_board (push_bit 27 1)"
    by (rule find_valid_moves_depth[OF _ assms]) simp
  then have "snd (find_valid_moves depth lone_rook_board (push_bit 27 1))
        = Inr (squares_mask [3, 11, 19, 24, 25, 26, 28, 29, 30, 31, 35, 43, 51, 59])"
    using lone_rook_moves_8 by (simp only:)
  moreover have "card {j. bit (squares_mask [3, 11, 19, 24, 25, 26, 28, 29, 30, 31, 35, 43, 51, 59]) j}
        = length [3, 11, 19, 24, 25, 26, 28, 29, 30, 31, 35, 43, 51, 59 :: nat]"
    by (rule card_squares_mask) simp
  ultimately show ?thesis by simp
qed

lemma generate_moves_single:
  assumes "k < 64" and "\<not> bit pieces k" and "8 \<le> depth"
  shows "generate_moves depth pieces (push_bit k 1) [direction_code d] None
         = Inr (squares_mask (ray_squares (bit pieces) d k))"
  using generate_moves_rays[OF assms(1,3), of pieces "[d]" None] assms(2)
  by (simp add: rays_def limit_take_def del: push_bit_of_1)

text \<open>
  C1. For every on-board origin square \<open>k\<close>, every one of the eight directions and every
  occupancy in which the origin itself is not set (the precondition \<open>execute_move\<close>
  establishes), with at least eight stack frames left the recursive shift function for
  that direction (and so \<open>generate_moves\<close> with that one direction) returns a bitboard
  whose set bits are exactly the squares of
  \<open>ray_squares\<close>: those reached by single steps from the origin, ending before the
  board edge and ending on (and including) the first occupied square; no bit outside the
  board is set. A Rook on D4 of an otherwise empty board has exactly 14 destinations.
\<close>

theorem ray_casting_exact:
  "(\<forall>depth pieces k d. k < 64 \<and> \<not> bit pieces k \<and> 8 \<le> depth \<longrightarrow>
      (\<exists>m. cast_ray depth pieces (push_bit k 1) d = Inr m
           \<and> generate_moves depth pieces (push_bit k 1) [direction_code d] None = Inr m
           \<and> (\<forall>j. bit m j \<longleftrightarrow> j \<in> set (ray_squares (bit pieces) d k))
           \<and> (\<forall>j. bit m j \<longrightarrow> j < 64)))
   \<and> (\<forall>depth. 8 \<le> depth \<longrightarrow>
        (\<exists>m. snd (find_valid_moves depth lone_rook_board (push_bit 27 1)) = Inr m
            \<and> card {j. bit m j} = 14))"
proof (intro conjI allI impI)
  fix depth :: nat and pieces :: int and k :: nat and d :: direction
  assume h: "k < 64 \<and> \<not> bit pieces k \<and> 8 \<le> depth"
  then have "cast_ray depth pieces (push_bit k 1) d
         = Inr (squares_mask (ray_squares (bit pieces) d k))"
    by (intro cast_ray_exact) simp_all
  moreover from h have "generate_moves depth pieces (push_bit k 1) [direction_code d] None
         = Inr (squares_mask (ray_squares (bit pieces) d k))"
    by (intro generate_moves_single) simp_all
  ultimately show "\<exists>m. cast_ray depth pieces (push_bit k 1) d = Inr m
           \<and> generate_moves depth pieces (push_bit k 1) [direction_code d] None = Inr m
           \<and> (\<forall>j. bit m j \<longleftrightarrow> j \<in> set (ray_squares (bit pieces) d k))
           \<and> (\<forall>j. bit m j \<longrightarrow> j < 64)"
    using ray_squares_on_board by (auto simp: bit_squares_mask)
next
  fix depth :: nat
  assume "8 \<le> depth"
  then show "\<exists>m. snd (find_valid_moves depth lone_rook_board (push_bit 27 1)) = Inr m
            \<and> card {j. bit m j} = 14"
    by (rule lone_rook_moves)
qed

theorem ray_casting_exact_witness:
  "(27::nat) < 64 \<and> \<not> bit (push_bit 29 1 :: int) 27 \<and> (8::nat) \<le> 8
   \<and> (\<exists>m. cast_ray 8 (push_bit 29 1) (push_bit 27 1) East = Inr m
          \<and> {j. bit m j} = {28, 29})"
proof -
  have pre: "(27::nat) < 64 \<and> \<not> bit (push_bit 29 1 :: int) 27 \<and> (8::nat) \<le> 8"
    by (simp add: bit_single del: push_bit_of_1)
  have sq: "ray_squares (bit (push_bit 29 1 :: int)) East 27 = [28, 29]"
    by code_simp
  from ray_casting_exact pre
  obtain m where "cast_ray 8 (push_bit 29 1) (push_bit 27 1) East = Inr m"
    and "\<forall>j. bit m j \<longleftrightarrow> j \<in> set (ray_squares (bit (push_bit 29 1 :: int)) East 27)"
    by blast
  then have "cast_ray 8 (push_bit 29 1) (push_bit 27 1) East = Inr m \<and> {j. bit m j} = {28, 29}"
    unfolding sq by auto
  then show ?thesis using pre by blast
qed

section \<open>Knight geometry (C2)\<close>

lemma set_squares_of: "set (squares_of m) = {j. j < 64 \<and> bit m j}"
  by (auto simp: squares_of_def)

lemma knight_squares_0:
  "\<forall>k\<in>set [0..<16]. squares_of (generate_moves_knight (push_bit k 1))
     = filter (knight_offset k) [0..<64]"
  by code_simp

lemma knight_squares_16:
  "\<forall>k\<in>set [16..<32]. squares_of (generate_moves_knight (push_bit k 1))
     = filter (knight_offset k) [0..<64]"
  by code_simp

lemma knight_squares_32:
  "\<forall>k\<in>set [32..<48]. squares_of (generate_moves_knight (push_bit k 1))
     = filter (knight_offset k) [0..<64]"
  by code_simp

lemma knight_squares_48:
  "\<forall>k\<in>set [48..<64]. squares_of (generate_moves_knight (push_bit k 1))
     = filter (knight_offset k) [0..<64]"
  by code_simp

lemma knight_squares:
  assumes "k < 64"
  shows "squares_of (generate_moves_knight (push_bit k 1)) = filter (knight_offset k) [0..<64]"
proof -
  have "k \<in> set [0..<16] \<or> k \<in> set [16..<32] \<or> k \<in> set [32..<48] \<or> k \<in> set [48..<64]"
    using assms by (simp only: set_upt atLeastLessThan_iff) arith
  then show ?thesis
    using knight_squares_0 knight_squares_16 knight_squares_32 knight_squares_48 by blast
qed

lemma knight_bits:
  assumes "k < 64" "j < 64"
  shows "bit (generate_moves_knight (push_bit k 1)) j = knight_offset k j"
proof -
  have "set (squares_of (generate_moves_knight (push_bit k 1)))
        = set (filter (knight_offset k) [0..<64])"
    using knight_squares[OF assms(1)] by simp
  then show ?thesis using assms(2) by (auto simp: set_squares_of)
qed

lemma knight_a1: "squares_of (generate_moves_knight (push_bit 0 1)) = [10, 17]"
  by code_simp

lemma knight_d4: "length (squares_of (generate_moves_knight (push_bit 27 1))) = 8"
  by code_simp

lemma card_squares_of: "card {j. j < 64 \<and> bit m j} = length (squares_of m)"
proof -
  have "distinct (squares_of m)" by (simp add: squares_of_def)
  then have "card (set (squares_of m)) = length (squares_of m)" by (rule distinct_card)
  then show ?thesis by (simp only: set_squares_of)
qed

text \<open>
  C2. For every origin square, the board squares (bits 0 to 63) set in the result of
  \<open>generate_moves_knight\<close> are exactly the on-board squares at an L-shaped offset from
  the origin, so nothing wraps around an edge. From A1 (square 0) they are C2 (10) and B3
  (17); from D4 (square 27) there are eight.
\<close>

theorem knight_geometry:
  "(\<forall>k<64. \<forall>j<64. bit (generate_moves_knight (push_bit k 1)) j = knight_offset k j)
   \<and> {j. j < 64 \<and> bit (generate_moves_knight (push_bit 0 1)) j} = {10, 17}
   \<and> card {j. j < 64 \<and> bit (generate_moves_knight (push_bit 27 1)) j} = 8"
proof -
  have a: "{j. j < 64 \<and> bit (generate_moves_knight (push_bit 0 1)) j} = {10, 17}"
    using knight_a1 set_squares_of[of "generate_moves_knight (push_bit 0 1)"] by auto
  have b: "card {j. j < 64 \<and> bit (generate_moves_knight (push_bit 27 1)) j} = 8"
    using knight_d4 by (simp only: card_squares_of)
  show ?thesis using knight_bits a b by blast
qed

theorem knight_geometry_witness:
  "(63::nat) < 64 \<and> (46::nat) < 64
   \<and> bit (generate_moves_knight (push_bit 63 1)) 46 \<and> knight_offset 63 46"
proof -
  have k: "knight_offset 63 46" by code_simp
  have a: "(63::nat) < 64" and b: "(46::nat) < 64" by simp_all
  have "bit (generate_moves_knight (push_bit 63 1)) 46 = knight_offset 63 46"
    using knight_geometry a b by blast
  then show ?thesis using k a b by blast
qed

section \<open>Pawn moves on a consistent occupancy\<close>

lemma pawn_rank_all:
  "\<forall>k\<in>set [0..<64]. (bit (0xff00::int) k \<longleftrightarrow> rank_of k = 1)
      \<and> (bit (0xff000000000000::int) k \<longleftrightarrow> rank_of k = 6)"
  by code_simp

lemma pawn_rank:
  assumes "k < 64"
  shows "push_bit k (1::int) AND 0xff00 \<noteq> 0 \<longleftrightarrow> rank_of k = 1"
    and "push_bit k (1::int) AND 0xff000000000000 \<noteq> 0 \<longleftrightarrow> rank_of k = 6"
proof -
  have "k \<in> set [0..<64]" using assms by simp
  from pawn_rank_all[THEN bspec, OF this]
  show "push_bit k (1::int) AND 0xff00 \<noteq> 0 \<longleftrightarrow> rank_of k = 1"
    and "push_bit k (1::int) AND 0xff000000000000 \<noteq> 0 \<longleftrightarrow> rank_of k = 6"
    unfolding single_and_nonzero by blast+
qed

lemma take1_ray:
  "j \<in> set (limit_take (Some 1) (ray_squares occupied d k)) \<longleftrightarrow> step_square d k = Some j"
  by (cases "step_square d k") (auto simp: limit_take_def ray_squares_None ray_squares_Some)

lemma take2_ray:
  "j \<in> set (limit_take (Some 2) (ray_squares occupied d k)) \<longleftrightarrow>
     step_square d k = Some j
     \<or> (case step_square d k of None \<Rightarrow> False
         | Some k1 \<Rightarrow> \<not> occupied k1 \<and> step_square d k1 = Some j)"
proof (cases "step_square d k")
  case None
  then show ?thesis by (simp add: limit_take_def ray_squares_None)
next
  case (Some k1)
  have two: "nat 2 = Suc (Suc 0)" by simp
  show ?thesis
  proof (cases "step_square d k1")
    case None
    then show ?thesis using Some
      by (auto simp: limit_take_def ray_squares_Some[OF Some] ray_squares_None two simp del: nat_numeral)
  next
    case (Some k2)
    then show ?thesis using \<open>step_square d k = Some k1\<close>
      by (auto simp: limit_take_def ray_squares_Some two simp del: nat_numeral)
  qed
qed

lemma step_moves:
  assumes "k < 64" "step_square d k = Some k'"
  shows "k' \<noteq> k"
proof (cases "0 < direction_code d")
  case True
  from left_step(2)[OF assms(1) True assms(2)] True show ?thesis by simp
next
  case False
  then have neg: "direction_code d < 0" by (cases d) simp_all
  from right_step(2,3)[OF assms(1) neg assms(2)] neg show ?thesis by simp
qed

lemma generate_moves_pawn_bits:
  assumes "k < 64" "8 \<le> depth" "\<not> bit (all_pieces_bb b) k"
  shows "\<exists>m. generate_moves_pawn depth b (push_bit k 1) = Inr m
     \<and> (\<forall>j. bit m j \<longleftrightarrow>
          (j \<in> set (limit_take (Some (if on_start_rank (current_turn b) k then 2 else 1))
                     (ray_squares (bit (all_pieces_bb b)) (pawn_forward (current_turn b)) k))
           \<and> \<not> bit (all_pieces_bb b) j)
          \<or> (bit (all_pieces_bb b) j
              \<and> (step_square (fst (pawn_diagonals (current_turn b))) k = Some j
                  \<or> step_square (snd (pawn_diagonals (current_turn b))) k = Some j)))"
proof (cases "current_turn b")
  case White
  have "generate_moves_pawn depth b (push_bit k 1)
      = Inr ((squares_mask (rays (all_pieces_bb b) [North]
                 (Some (if on_start_rank White k then 2 else 1)) k) AND NOT (all_pieces_bb b))
             OR (all_pieces_bb b AND squares_mask (rays (all_pieces_bb b) [Northwest, Northeast] (Some 1) k)))"
    unfolding generate_moves_pawn_def Let_def
    using assms White pawn_rank[OF assms(1)]
    by (simp add: generate_moves_rays_lists on_start_rank_def del: push_bit_of_1)
  then show ?thesis
    unfolding White
    by (auto simp: bit_or_iff bit_and_iff bit_not_iff bit_squares_mask rays_def
          pawn_forward_def pawn_diagonals_def take1_ray)
next
  case Black
  have "generate_moves_pawn depth b (push_bit k 1)
      = Inr ((squares_mask (rays (all_pieces_bb b) [South]
                 (Some (if on_start_rank Black k then 2 else 1)) k) AND NOT (all_pieces_bb b))
             OR (all_pieces_bb b AND squares_mask (rays (all_pieces_bb b) [Southeast, Southwest] (Some 1) k)))"
    unfolding generate_moves_pawn_def Let_def
    using assms Black pawn_rank[OF assms(1)]
    by (simp add: generate_moves_rays_lists on_start_rank_def del: push_bit_of_1)
  then show ?thesis
    unfolding Black
    by (auto simp: bit_or_iff bit_and_iff bit_not_iff bit_squares_mask rays_def
          pawn_forward_def pawn_diagonals_def take1_ray)
qed

lemma two_steps_move:
  assumes "k < 64" "step_square d k = Some k1" "step_square d k1 = Some k2"
  shows "k2 \<noteq> k"
proof (cases "0 < direction_code d")
  case True
  have "k1 < 64" using assms(2) by (rule step_on_board)
  from left_step(2)[OF assms(1) True assms(2)] left_step(2)[OF this True assms(3)] True
  show ?thesis by simp
next
  case False
  then have neg: "direction_code d < 0" by (cases d) simp_all
  have "k1 < 64" using assms(2) by (rule step_on_board)
  have "0 < nat \<bar>direction_code d\<bar>" using neg by simp
  with right_step(2,3)[OF assms(1) neg assms(2)] right_step(2,3)[OF \<open>k1 < 64\<close> neg assms(3)]
  show ?thesis by linarith
qed

lemma find_valid_moves_pawn:
  assumes k: "k < 64" and depth: "8 \<le> depth"
    and pawn: "pieces_to_search b \<noteq> []" "bit (pieces_to_search b ! 0) k"
    and occ: "all_pieces_bb b = (all_white_pieces_bb b OR all_black_pieces_bb b) AND NOT (push_bit k 1)"
  shows "\<exists>m. find_valid_moves depth b (push_bit k 1) = (b\<lparr>piece_moved_index := Some 0\<rparr>, Inr m)
     \<and> (\<forall>j. bit m j \<longleftrightarrow>
           pawn_destination (current_turn b)
             (\<lambda>j. bit (all_white_pieces_bb b) j \<or> bit (all_black_pieces_bb b) j)
             (\<lambda>j. bit (opponents_pieces_bb b) j \<and> \<not> bit (friendly_pieces_bb b) j) k j)"
proof -
  let ?b = "b\<lparr>piece_moved_index := Some 0\<rparr>"
  let ?s = "current_turn b"
  let ?P = "all_pieces_bb b"
  have P: "bit ?P j \<longleftrightarrow> (bit (all_white_pieces_bb b) j \<or> bit (all_black_pieces_bb b) j) \<and> j \<noteq> k" for j
    unfolding occ by (auto simp: bit_and_iff bit_or_iff bit_not_iff bit_single simp del: push_bit_of_1)
  then have free: "\<not> bit (all_pieces_bb ?b) k" by simp
  from generate_moves_pawn_bits[OF k depth free]
  obtain pm where pm: "generate_moves_pawn depth ?b (push_bit k 1) = Inr pm"
    and pmb: "\<And>j. bit pm j \<longleftrightarrow>
          (j \<in> set (limit_take (Some (if on_start_rank ?s k then 2 else 1))
                     (ray_squares (bit ?P) (pawn_forward ?s) k))
           \<and> \<not> bit ?P j)
          \<or> (bit ?P j
              \<and> (step_square (fst (pawn_diagonals ?s)) k = Some j
                  \<or> step_square (snd (pawn_diagonals ?s)) k = Some j))"
    by auto
  have p0: "(pieces_to_search b ! 0) AND push_bit k 1 \<noteq> 0"
    using pawn(2) single_and_nonzero[of k "pieces_to_search b ! 0"] by (simp add: and.commute)
  have fv: "find_valid_moves depth b (push_bit k 1)
        = (?b, Inr (pm AND NOT (friendly_pieces_bb b)))"
    unfolding find_valid_moves_def Let_def
    using pawn(1) p0 pm
    by (simp add: py_index_def pieces_to_search_def friendly_pieces_bb_def without_friendly_def
          del: push_bit_of_1)
  have fr: "bit (friendly_pieces_bb b) j \<Longrightarrow> bit (all_white_pieces_bb b) j \<or> bit (all_black_pieces_bb b) j" for j
    by (auto simp: friendly_pieces_bb_def split: if_splits)
  have op: "bit (all_white_pieces_bb b) j \<or> bit (all_black_pieces_bb b) j
        \<longleftrightarrow> bit (opponents_pieces_bb b) j \<or> bit (friendly_pieces_bb b) j" for j
    by (auto simp: friendly_pieces_bb_def opponents_pieces_bb_def)
  have "bit (pm AND NOT (friendly_pieces_bb b)) j \<longleftrightarrow>
       pawn_destination ?s
         (\<lambda>j. bit (all_white_pieces_bb b) j \<or> bit (all_black_pieces_bb b) j)
         (\<lambda>j. bit (opponents_pieces_bb b) j \<and> \<not> bit (friendly_pieces_bb b) j) k j" for j
  proof (cases "step_square (pawn_forward ?s) k")
    case None
    then show ?thesis
      unfolding bit_and_iff bit_not_iff pmb pawn_destination_def
      using step_moves[OF k] fr op P
      by (auto simp: take1_ray take2_ray)
  next
    case (Some k1)
    have k1: "k1 \<noteq> k" using step_moves[OF k Some] .
    show ?thesis
      unfolding bit_and_iff bit_not_iff pmb pawn_destination_def
      using step_moves[OF k] two_steps_move[OF k Some] fr op P k1 Some
      by (auto simp: take1_ray take2_ray)
  qed
  then show ?thesis using fv by blast
qed

lemma e2_steps:
  "step_square North 12 = Some 20" "step_square Northwest 12 = Some 19"
  "step_square Northeast 12 = Some 21" "on_start_rank White 12"
  by code_simp+

text \<open>
  On every board whose all-pieces mask is the union of the two side masks with the
  origin bit removed, and for every on-board origin \<open>k\<close> held by a pawn of the side to
  move, \<open>find_valid_moves\<close> (with at least eight stack frames) finds the pawn and returns
  a bitboard whose set bits are exactly the squares of \<open>pawn_destination\<close>. The
  hypothesis on the all-pieces mask cannot be dropped: \<open>generate_moves_pawn\<close> reads
  occupancy from \<open>_all_pieces_bb\<close> alone.
\<close>

lemma pawn_rule_consistent_board:
  "(\<forall>depth b k. k < 64 \<and> 8 \<le> depth
       \<and> pieces_to_search b \<noteq> [] \<and> bit (pieces_to_search b ! 0) k
       \<and> all_pieces_bb b = (all_white_pieces_bb b OR all_black_pieces_bb b) AND NOT (push_bit k 1)
     \<longrightarrow>
       (\<exists>m. find_valid_moves depth b (push_bit k 1) = (b\<lparr>piece_moved_index := Some 0\<rparr>, Inr m)
          \<and> (\<forall>j. bit m j \<longleftrightarrow>
                pawn_destination (current_turn b)
                  (\<lambda>j. bit (all_white_pieces_bb b) j \<or> bit (all_black_pieces_bb b) j)
                  (\<lambda>j. bit (opponents_pieces_bb b) j \<and> \<not> bit (friendly_pieces_bb b) j) k j)))
   \<and> (\<forall>depth b. 8 \<le> depth \<and> current_turn b = White
       \<and> white_pieces_list b \<noteq> [] \<and> bit (white_pieces_list b ! 0) 12
       \<and> all_pieces_bb b = (all_white_pieces_bb b OR all_black_pieces_bb b) AND NOT (push_bit 12 1)
       \<and> (bit (all_white_pieces_bb b) 20 \<or> bit (all_black_pieces_bb b) 20)
     \<longrightarrow>
       (\<exists>m. snd (find_valid_moves depth b (push_bit 12 1)) = Inr m
          \<and> \<not> bit m 20 \<and> \<not> bit m 28
          \<and> (\<forall>j. bit m j \<longrightarrow> (j = 19 \<or> j = 21) \<and> bit (all_black_pieces_bb b) j)))"
proof (intro conjI allI impI)
  fix depth :: nat and b :: board and k :: nat
  assume "k < 64 \<and> 8 \<le> depth
       \<and> pieces_to_search b \<noteq> [] \<and> bit (pieces_to_search b ! 0) k
       \<and> all_pieces_bb b = (all_white_pieces_bb b OR all_black_pieces_bb b) AND NOT (push_bit k 1)"
  then show "\<exists>m. find_valid_moves depth b (push_bit k 1) = (b\<lparr>piece_moved_index := Some 0\<rparr>, Inr m)
          \<and> (\<forall>j. bit m j \<longleftrightarrow>
                pawn_destination (current_turn b)
                  (\<lambda>j. bit (all_white_pieces_bb b) j \<or> bit (all_black_pieces_bb b) j)
                  (\<lambda>j. bit (opponents_pieces_bb b) j \<and> \<not> bit (friendly_pieces_bb b) j) k j)"
    using find_valid_moves_pawn[of k depth b] by blast
next
  fix depth :: nat and b :: board
  assume h: "8 \<le> depth \<and> current_turn b = White
       \<and> white_pieces_list b \<noteq> [] \<and> bit (white_pieces_list b ! 0) 12
       \<and> all_pieces_bb b = (all_white_pieces_bb b OR all_black_pieces_bb b) AND NOT (push_bit 12 1)
       \<and> (bit (all_white_pieces_bb b) 20 \<or> bit (all_black_pieces_bb b) 20)"
  then have w: "current_turn b = White" by blast
  have "(12::nat) < 64" by simp
  moreover have "pieces_to_search b \<noteq> []" "bit (pieces_to_search b ! 0) 12"
    using h by (simp_all add: pieces_to_search_def)
  ultimately obtain m where
    fv: "find_valid_moves depth b (push_bit 12 1) = (b\<lparr>piece_moved_index := Some 0\<rparr>, Inr m)"
    and bits: "\<And>j. bit m j \<longleftrightarrow>
                pawn_destination White
                  (\<lambda>j. bit (all_white_pieces_bb b) j \<or> bit (all_black_pieces_bb b) j)
                  (\<lambda>j. bit (opponents_pieces_bb b) j \<and> \<not> bit (friendly_pieces_bb b) j) 12 j"
    using find_valid_moves_pawn[of 12 depth b] h unfolding w by blast
  have "\<not> bit m 20 \<and> \<not> bit m 28
          \<and> (\<forall>j. bit m j \<longrightarrow> (j = 19 \<or> j = 21) \<and> bit (all_black_pieces_bb b) j)"
    unfolding bits pawn_destination_def
    using h e2_steps
    by (auto simp: pawn_forward_def pawn_diagonals_def opponents_pieces_bb_def)
  then show "\<exists>m. snd (find_valid_moves depth b (push_bit 12 1)) = Inr m
          \<and> \<not> bit m 20 \<and> \<not> bit m 28
          \<and> (\<forall>j. bit m j \<longrightarrow> (j = 19 \<or> j = 21) \<and> bit (all_black_pieces_bb b) j)"
    using fv by simp
qed

lemma pawn_rule_start_position:
  "((12::nat) < 64 \<and> (8::nat) \<le> 8
     \<and> pieces_to_search e2_pawn_board \<noteq> [] \<and> bit (pieces_to_search e2_pawn_board ! 0) 12
     \<and> all_pieces_bb e2_pawn_board
         = (all_white_pieces_bb e2_pawn_board OR all_black_pieces_bb e2_pawn_board)
           AND NOT (push_bit 12 1))
   \<and> (\<exists>m. find_valid_moves 8 e2_pawn_board (push_bit 12 1)
             = (e2_pawn_board\<lparr>piece_moved_index := Some 0\<rparr>, Inr m)
          \<and> bit m 20 \<and> bit m 28 \<and> \<not> bit m 19 \<and> \<not> bit m 21)"
proof -
  have pre: "(12::nat) < 64 \<and> (8::nat) \<le> 8
     \<and> pieces_to_search e2_pawn_board \<noteq> [] \<and> bit (pieces_to_search e2_pawn_board ! 0) 12
     \<and> all_pieces_bb e2_pawn_board
         = (all_white_pieces_bb e2_pawn_board OR all_black_pieces_bb e2_pawn_board)
           AND NOT (push_bit 12 1)"
    by (simp add: e2_pawn_board_def setup_new_board_def pieces_to_search_def)
  with pawn_rule_consistent_board obtain m where
    fv: "find_valid_moves 8 e2_pawn_board (push_bit 12 1)
             = (e2_pawn_board\<lparr>piece_moved_index := Some 0\<rparr>, Inr m)"
    and bits: "\<And>j. bit m j \<longleftrightarrow>
                pawn_destination (current_turn e2_pawn_board)
                  (\<lambda>j. bit (all_white_pieces_bb e2_pawn_board) j \<or> bit (all_black_pieces_bb e2_pawn_board) j)
                  (\<lambda>j. bit (opponents_pieces_bb e2_pawn_board) j \<and> \<not> bit (friendly_pieces_bb e2_pawn_board) j) 12 j"
    by blast
  have "bit m 20 \<and> bit m 28 \<and> \<not> bit m 19 \<and> \<not> bit m 21"
    unfolding bits by code_simp
  then show ?thesis using pre fv by blast
qed

section \<open>State invariants (C4)\<close>

lemma and_not_absorb: "(t::int) AND x = 0 \<Longrightarrow> x AND NOT t = x"
  by (auto simp: bit_eq_iff bit_and_iff bit_not_iff)

lemma capture_loop_turn: "current_turn (capture_loop b t idxs) = current_turn b"
  by (induction idxs arbitrary: b) simp_all

lemma capture_loop_moved: "piece_moved_index (capture_loop b t idxs) = piece_moved_index b"
  by (induction idxs arbitrary: b) simp_all

lemma capture_loop_all: "all_pieces_bb (capture_loop b t idxs) = all_pieces_bb b"
  by (induction idxs arbitrary: b) simp_all

lemma capture_loop_own:
  "pieces_to_search (capture_loop b t idxs) = pieces_to_search b
   \<and> friendly_pieces_bb (capture_loop b t idxs) = friendly_pieces_bb b"
proof (induction idxs arbitrary: b)
  case Nil
  show ?case by simp
next
  case (Cons index rest)
  show ?case
    using Cons.IH[of b]
      Cons.IH[of "b\<lparr>piece_captured_index := Some index,
                black_pieces_list :=
                  (black_pieces_list b)[index := (black_pieces_list b ! index) AND NOT t],
                all_black_pieces_bb := all_black_pieces_bb b AND NOT t\<rparr>"]
      Cons.IH[of "b\<lparr>piece_captured_index := Some index,
                white_pieces_list :=
                  (white_pieces_list b)[index := (white_pieces_list b ! index) AND NOT t],
                all_white_pieces_bb := all_white_pieces_bb b AND NOT t\<rparr>"]
    by (cases "current_turn b")
      (simp_all add: pieces_to_search_def friendly_pieces_bb_def capture_loop_turn)
qed

lemma capture_loop_Cons:
  "capture_loop b t (index # rest) = capture_loop (capture_at b t index) t rest"
  by (simp add: capture_at_def opponents_pieces_list_def)

lemma capture_at_fields:
  "current_turn (capture_at b t index) = current_turn b"
  "length (opponents_pieces_list (capture_at b t index)) = length (opponents_pieces_list b)"
  "n < length (opponents_pieces_list b) \<Longrightarrow>
     opponents_pieces_list (capture_at b t index) ! n
       = (if n = index then opponents_pieces_list b ! n AND NOT t else opponents_pieces_list b ! n)"
  "opponents_pieces_bb (capture_at b t index)
     = (if t AND (opponents_pieces_list b ! index) = 0 then opponents_pieces_bb b
        else opponents_pieces_bb b AND NOT t)"
  "piece_captured_index (capture_at b t index)
     = (if t AND (opponents_pieces_list b ! index) = 0 then piece_captured_index b
        else Some index)"
  using and_not_absorb[of t "opponents_pieces_list b ! index"]
  by (auto simp: capture_at_def opponents_pieces_list_def opponents_pieces_bb_def)

lemma and_and_not: "(t::int) AND (x AND NOT t) = 0"
  by (auto simp: bit_eq_iff bit_and_iff bit_not_iff)

lemma capture_loop_length:
  "length (opponents_pieces_list (capture_loop b t idxs)) = length (opponents_pieces_list b)"
proof (induction idxs arbitrary: b)
  case Nil
  show ?case by simp
next
  case (Cons index rest)
  show ?case unfolding capture_loop_Cons Cons.IH capture_at_fields ..
qed

lemma capture_loop_list:
  "n < length (opponents_pieces_list b) \<Longrightarrow>
   opponents_pieces_list (capture_loop b t idxs) ! n
     = (if n \<in> set idxs then opponents_pieces_list b ! n AND NOT t
        else opponents_pieces_list b ! n)"
proof (induction idxs arbitrary: b)
  case Nil
  show ?case by simp
next
  case (Cons index rest)
  have n: "n < length (opponents_pieces_list (capture_at b t index))"
    using Cons.prems by (simp add: capture_at_fields)
  show ?case
    unfolding capture_loop_Cons Cons.IH[OF n] capture_at_fields(3)[OF Cons.prems]
    by (simp add: and.assoc)
qed

lemma capture_loop_aggregate:
  "\<forall>n\<in>set idxs. n < length (opponents_pieces_list b) \<Longrightarrow>
   opponents_pieces_bb (capture_loop b t idxs)
     = (if \<exists>n\<in>set idxs. t AND (opponents_pieces_list b ! n) \<noteq> 0
        then opponents_pieces_bb b AND NOT t else opponents_pieces_bb b)"
proof (induction idxs arbitrary: b)
  case Nil
  show ?case by simp
next
  case (Cons index rest)
  have r: "\<forall>n\<in>set rest. n < length (opponents_pieces_list (capture_at b t index))"
    using Cons.prems by (simp add: capture_at_fields)
  have hit: "t AND (opponents_pieces_list (capture_at b t index) ! n) \<noteq> 0
       \<longleftrightarrow> n \<noteq> index \<and> t AND (opponents_pieces_list b ! n) \<noteq> 0"
    if "n \<in> set rest" for n
    using that Cons.prems by (simp add: capture_at_fields and_and_not)
  show ?case
    unfolding capture_loop_Cons Cons.IH[OF r] capture_at_fields(4)
    using hit by (auto simp: and.assoc)
qed

lemma capture_loop_no_hit:
  "\<forall>n\<in>set idxs. n < length (opponents_pieces_list b) \<and> t AND (opponents_pieces_list b ! n) = 0 \<Longrightarrow>
   capture_loop b t idxs = b"
proof (induction idxs arbitrary: b)
  case Nil
  show ?case by simp
next
  case (Cons index rest)
  have "capture_at b t index = b" using Cons.prems by (simp add: capture_at_def)
  then show ?case unfolding capture_loop_Cons using Cons by simp
qed

lemma capture_loop_captured:
  assumes "\<forall>n\<in>set idxs. n < length (opponents_pieces_list b)"
    and "i \<in> set idxs" and "t AND (opponents_pieces_list b ! i) \<noteq> 0"
    and "\<forall>n\<in>set idxs. n \<noteq> i \<longrightarrow> t AND (opponents_pieces_list b ! n) = 0"
  shows "piece_captured_index (capture_loop b t idxs) = Some i"
  using assms
proof (induction idxs arbitrary: b)
  case Nil
  then show ?case by simp
next
  case (Cons index rest)
  show ?case
  proof (cases "index = i")
    case True
    have "\<forall>n\<in>set rest. n < length (opponents_pieces_list (capture_at b t index))
            \<and> t AND (opponents_pieces_list (capture_at b t index) ! n) = 0"
      using Cons.prems True by (auto simp: capture_at_fields and_and_not)
    then have "capture_loop (capture_at b t index) t rest = capture_at b t index"
      by (rule capture_loop_no_hit)
    then show ?thesis unfolding capture_loop_Cons using Cons.prems(3) True
      by (simp add: capture_at_fields)
  next
    case False
    then have same: "capture_at b t index = b" using Cons.prems by (simp add: capture_at_def)
    show ?thesis unfolding capture_loop_Cons same
      using Cons.prems False by (intro Cons.IH) auto
  qed
qed

lemma bit_union_bb: "bit (union_bb xs) q \<longleftrightarrow> (\<exists>n<length xs. bit (xs ! n) q)"
proof (induction xs)
  case Nil
  show ?case by (simp add: union_bb_def)
next
  case (Cons x xs)
  have "bit (union_bb (x # xs)) q \<longleftrightarrow> bit x q \<or> bit (union_bb xs) q"
    by (simp add: union_bb_def bit_or_iff)
  also have "\<dots> \<longleftrightarrow> bit x q \<or> (\<exists>n<length xs. bit (xs ! n) q)"
    using Cons.IH by simp
  also have "\<dots> \<longleftrightarrow> (\<exists>n<length (x # xs). bit ((x # xs) ! n) q)"
    by (auto simp: less_Suc_eq_0_disj)
  finally show ?case .
qed

lemma pairwise_disjoint_bits:
  "pairwise_disjoint xs \<longleftrightarrow>
     (\<forall>n<length xs. \<forall>m<length xs. n \<noteq> m \<longrightarrow> (\<forall>q. \<not> (bit (xs ! n) q \<and> bit (xs ! m) q)))"
  unfolding pairwise_disjoint_def by (simp add: bit_eq_iff bit_and_iff)

lemma disjoint_bits: "(x::int) AND y = 0 \<longleftrightarrow> (\<forall>q. \<not> (bit x q \<and> bit y q))"
  by (simp add: bit_eq_iff bit_and_iff)

lemma inv_step:
  assumes pd_own: "pairwise_disjoint own" and pd_opp: "pairwise_disjoint opp"
    and Fr: "Fr = union_bb own" and Op: "Op = union_bb opp"
    and Al: "Al = Fr OR Op" and FrOp: "Fr AND Op = 0"
    and i: "i < length own" and src: "bit (own ! i) k" and dst: "\<not> bit Fr j"
    and f: "\<And>q. bit f q \<longleftrightarrow> q = k" and t: "\<And>q. bit t q \<longleftrightarrow> q = j"
  shows "pairwise_disjoint (own[i := (own ! i AND NOT f) OR t])"
    and "pairwise_disjoint (map (\<lambda>x. x AND NOT t) opp)"
    and "(Fr AND NOT f) OR t = union_bb (own[i := (own ! i AND NOT f) OR t])"
    and "Op AND NOT t = union_bb (map (\<lambda>x. x AND NOT t) opp)"
    and "((Al AND NOT f) AND NOT f) OR t = ((Fr AND NOT f) OR t) OR (Op AND NOT t)"
    and "((Fr AND NOT f) OR t) AND (Op AND NOT t) = 0"
proof -
  have own_dst: "\<not> bit (own ! n) j" if "n < length own" for n
    using dst that unfolding Fr bit_union_bb by blast
  have own_src: "\<not> bit (own ! n) k" if "n < length own" "n \<noteq> i" for n
    using pd_own src that i unfolding pairwise_disjoint_bits by blast
  have Fk: "bit Fr k" unfolding Fr bit_union_bb using i src by blast
  have Ok: "\<not> bit Op k" using FrOp Fk unfolding disjoint_bits by blast
  show "pairwise_disjoint (own[i := (own ! i AND NOT f) OR t])"
    unfolding pairwise_disjoint_bits
  proof (intro allI impI)
    fix n m q
    assume n: "n < length (own[i := (own ! i AND NOT f) OR t])"
      and m: "m < length (own[i := (own ! i AND NOT f) OR t])" and nm: "n \<noteq> m"
    have old: "\<not> (bit (own ! n) q \<and> bit (own ! m) q)"
      using pd_own n m nm unfolding pairwise_disjoint_bits by simp
    show "\<not> (bit (own[i := (own ! i AND NOT f) OR t] ! n) q
            \<and> bit (own[i := (own ! i AND NOT f) OR t] ! m) q)"
      using old own_dst[of n] own_dst[of m] n m nm i
      by (auto simp: nth_list_update bit_or_iff bit_and_iff bit_not_iff f t)
  qed
  show "pairwise_disjoint (map (\<lambda>x. x AND NOT t) opp)"
    using pd_opp unfolding pairwise_disjoint_bits
    by (auto simp: bit_and_iff bit_not_iff)
  show "(Fr AND NOT f) OR t = union_bb (own[i := (own ! i AND NOT f) OR t])"
  proof (rule bit_eqI)
    fix q
    have "bit (union_bb (own[i := (own ! i AND NOT f) OR t])) q
        \<longleftrightarrow> (\<exists>n<length own. bit (own[i := (own ! i AND NOT f) OR t] ! n) q)"
      by (simp add: bit_union_bb)
    also have "\<dots> \<longleftrightarrow> (\<exists>n<length own. bit (own ! n) q) \<and> q \<noteq> k \<or> q = j"
      using i own_src src
      by (auto simp: nth_list_update bit_or_iff bit_and_iff bit_not_iff f t split: if_splits)
    finally show "bit ((Fr AND NOT f) OR t) q
        = bit (union_bb (own[i := (own ! i AND NOT f) OR t])) q"
      unfolding Fr by (auto simp: bit_or_iff bit_and_iff bit_not_iff f t bit_union_bb)
  qed
  show "Op AND NOT t = union_bb (map (\<lambda>x. x AND NOT t) opp)"
    unfolding Op by (rule bit_eqI) (auto simp: bit_union_bb bit_and_iff bit_not_iff)
  show "((Al AND NOT f) AND NOT f) OR t = ((Fr AND NOT f) OR t) OR (Op AND NOT t)"
    unfolding Al using Ok by (intro bit_eqI) (auto simp: bit_or_iff bit_and_iff bit_not_iff f t)
  show "((Fr AND NOT f) OR t) AND (Op AND NOT t) = 0"
    using FrOp unfolding disjoint_bits by (auto simp: bit_or_iff bit_and_iff bit_not_iff f t)
qed

lemma convert_to_bitboard_Some:
  assumes "convert_to_bitboard loc = Inr (Some m)"
  shows "\<exists>k<64. m = push_bit k 1"
  using assms unfolding convert_to_bitboard_def Let_def
  apply (auto split: pyobj.splits if_splits sum.splits simp del: push_bit_of_1)
  apply (intro exI conjI)
   prefer 2
   apply (rule refl)
  apply simp
  done

lemma find_valid_moves_found:
  assumes "find_valid_moves depth b f = (b2, Inr legal)" and "legal \<noteq> 0"
  shows "\<exists>i moves. i < 6 \<and> i < length (pieces_to_search b)
           \<and> (pieces_to_search b ! i) AND f \<noteq> 0
           \<and> b2 = b\<lparr>piece_moved_index := Some i\<rparr>
           \<and> legal = moves AND NOT (friendly_pieces_bb b)"
  using assms
  unfolding find_valid_moves_def Let_def pieces_to_search_def[symmetric]
    friendly_pieces_bb_def[symmetric] py_index_def without_friendly_def
  apply (auto split: if_splits sum.splits)
       apply (rule exI[of _ 0]; auto)
      apply (rule exI[of _ 1]; auto)
     apply (rule exI[of _ 2]; auto)
    apply (rule exI[of _ 3]; auto)
   apply (rule exI[of _ 4]; auto)
  apply (rule exI[of _ 5]; auto)
  done

lemma move_own_fields:
  "current_turn (move_own b i f t) = current_turn b"
  "piece_moved_index (move_own b i f t) = piece_moved_index b"
  "piece_captured_index (move_own b i f t) = piece_captured_index b"
  "pieces_to_search (move_own b i f t)
     = (pieces_to_search b)[i := ((pieces_to_search b ! i) AND NOT f) OR t]"
  "friendly_pieces_bb (move_own b i f t) = (friendly_pieces_bb b AND NOT f) OR t"
  "all_pieces_bb (move_own b i f t) = (all_pieces_bb b AND NOT f) OR t"
  "opponents_pieces_list (move_own b i f t) = opponents_pieces_list b"
  "opponents_pieces_bb (move_own b i f t) = opponents_pieces_bb b"
  by (simp_all add: move_own_def pieces_to_search_def friendly_pieces_bb_def
        opponents_pieces_list_def opponents_pieces_bb_def)

lemma update_bitboards_eq:
  assumes "piece_moved_index b = Some i" "i < length (pieces_to_search b)"
  shows "update_bitboards b f t
       = (if t AND opponents_pieces_bb b \<noteq> 0
          then capture_loop (move_own b i f t) t [0..<length (opponents_pieces_list b)]
          else move_own b i f t, Inr ())"
  using assms
  by (cases "current_turn b")
    (simp_all add: update_bitboards_def Let_def move_own_def pieces_to_search_def
       opponents_pieces_list_def opponents_pieces_bb_def)

lemma and_union_bb: "t AND union_bb xs \<noteq> 0 \<longleftrightarrow> (\<exists>n<length xs. t AND xs ! n \<noteq> 0)"
  unfolding disjoint_bits bit_union_bb by blast

lemma update_bitboards_opp_list:
  assumes pmi: "piece_moved_index b = Some i" "i < length (pieces_to_search b)"
    and un: "opponents_pieces_bb b = union_bb (opponents_pieces_list b)"
  shows "opponents_pieces_list (fst (update_bitboards b f t))
           = map (\<lambda>x. x AND NOT t) (opponents_pieces_list b)"
proof (cases "t AND opponents_pieces_bb b \<noteq> 0")
  case True
  have len: "length (opponents_pieces_list (capture_loop (move_own b i f t) t
                [0..<length (opponents_pieces_list b)])) = length (opponents_pieces_list b)"
    by (simp add: capture_loop_length move_own_fields)
  have nth: "opponents_pieces_list (capture_loop (move_own b i f t) t
                [0..<length (opponents_pieces_list b)]) ! n
             = opponents_pieces_list b ! n AND NOT t"
    if "n < length (opponents_pieces_list b)" for n
    using that capture_loop_list[of n "move_own b i f t" t "[0..<length (opponents_pieces_list b)]"]
    by (simp add: move_own_fields)
  have "opponents_pieces_list (capture_loop (move_own b i f t) t
                [0..<length (opponents_pieces_list b)])
        = map (\<lambda>x. x AND NOT t) (opponents_pieces_list b)"
    by (rule nth_equalityI) (simp_all add: len nth)
  then show ?thesis
    unfolding update_bitboards_eq[OF pmi] using True by simp
next
  case False
  then have z: "\<And>n. n < length (opponents_pieces_list b) \<Longrightarrow> t AND opponents_pieces_list b ! n = 0"
    using and_union_bb[of t "opponents_pieces_list b"] un by auto
  have "map (\<lambda>x. x AND NOT t) (opponents_pieces_list b) = opponents_pieces_list b"
    by (rule nth_equalityI) (simp_all add: z and_not_absorb)
  then show ?thesis
    unfolding update_bitboards_eq[OF pmi] using False by (simp add: move_own_fields)
qed

lemma update_bitboards_opp_bb:
  assumes pmi: "piece_moved_index b = Some i" "i < length (pieces_to_search b)"
    and un: "opponents_pieces_bb b = union_bb (opponents_pieces_list b)"
  shows "opponents_pieces_bb (fst (update_bitboards b f t)) = opponents_pieces_bb b AND NOT t"
proof (cases "t AND opponents_pieces_bb b \<noteq> 0")
  case True
  let ?m = "move_own b i f t"
  let ?idxs = "[0..<length (opponents_pieces_list b)]"
  have in_range: "\<forall>n\<in>set ?idxs. n < length (opponents_pieces_list ?m)"
    by (simp add: move_own_fields)
  obtain n where "n < length (opponents_pieces_list b)" "t AND opponents_pieces_list b ! n \<noteq> 0"
    using True and_union_bb[of t "opponents_pieces_list b"] un by auto
  then have "\<exists>n\<in>set ?idxs. t AND (opponents_pieces_list ?m ! n) \<noteq> 0"
    unfolding move_own_fields by (intro bexI[of _ n]) simp_all
  then have "opponents_pieces_bb (capture_loop ?m t ?idxs) = opponents_pieces_bb ?m AND NOT t"
    using capture_loop_aggregate[OF in_range, of t] by (simp only: if_True)
  then show ?thesis
    unfolding update_bitboards_eq[OF pmi] using True by (simp add: move_own_fields)
next
  case False
  then show ?thesis
    unfolding update_bitboards_eq[OF pmi]
    by (simp add: move_own_fields and_not_absorb)
qed

lemma update_bitboards_own:
  assumes pmi: "piece_moved_index b = Some i" "i < length (pieces_to_search b)"
  shows "snd (update_bitboards b f t) = Inr ()"
    and "current_turn (fst (update_bitboards b f t)) = current_turn b"
    and "piece_moved_index (fst (update_bitboards b f t)) = Some i"
    and "pieces_to_search (fst (update_bitboards b f t))
           = (pieces_to_search b)[i := ((pieces_to_search b ! i) AND NOT f) OR t]"
    and "friendly_pieces_bb (fst (update_bitboards b f t)) = (friendly_pieces_bb b AND NOT f) OR t"
    and "all_pieces_bb (fst (update_bitboards b f t)) = (all_pieces_bb b AND NOT f) OR t"
  unfolding update_bitboards_eq[OF pmi]
  by (simp_all add: capture_loop_turn capture_loop_own capture_loop_all capture_loop_moved
        move_own_fields pmi)

text \<open>What a successful \<open>execute_move\<close> did.\<close>

lemma execute_move_success:
  assumes "execute_move depth b mf mt = (b', Inr True)"
  shows "\<exists>k j i. k < 64 \<and> j < 64
           \<and> convert_to_bitboard (PyStr mf) = Inr (Some (push_bit k 1))
           \<and> convert_to_bitboard (PyStr mt) = Inr (Some (push_bit j 1))
           \<and> i < 6 \<and> i < length (pieces_to_search b)
           \<and> bit (pieces_to_search b ! i) k
           \<and> \<not> bit (friendly_pieces_bb b) j
           \<and> update_bitboards
                (b\<lparr>all_pieces_bb := all_pieces_bb b AND NOT (push_bit k 1),
                   piece_moved_index := Some i\<rparr>) (push_bit k 1) (push_bit j 1)
              = (b', Inr ())"
proof -
  from assms obtain f t where cf: "convert_to_bitboard (PyStr mf) = Inr (Some f)"
    and ct: "convert_to_bitboard (PyStr mt) = Inr (Some t)"
    unfolding execute_move_def
    by (auto split: if_splits sum.splits option.splits)
  obtain k where k: "k < 64" "f = push_bit k 1" using convert_to_bitboard_Some[OF cf] by blast
  obtain j where j: "j < 64" "t = push_bit j 1" using convert_to_bitboard_Some[OF ct] by blast
  let ?b1 = "b\<lparr>all_pieces_bb := all_pieces_bb b AND NOT f\<rparr>"
  obtain b2 r where fv: "find_valid_moves depth ?b1 f = (b2, r)" by (cases "find_valid_moves depth ?b1 f")
  from assms cf ct fv obtain legal where r: "r = Inr legal" and hit: "t AND legal \<noteq> 0"
    and up: "update_bitboards b2 f t = (b', Inr ())"
    unfolding execute_move_def Let_def
    by (auto split: if_splits sum.splits option.splits prod.splits simp del: push_bit_of_1)
  have "legal \<noteq> 0" using hit by auto
  from find_valid_moves_found[OF fv[unfolded r] this]
  obtain i moves where i: "i < 6" "i < length (pieces_to_search ?b1)"
    "(pieces_to_search ?b1 ! i) AND f \<noteq> 0" "b2 = ?b1\<lparr>piece_moved_index := Some i\<rparr>"
    "legal = moves AND NOT (friendly_pieces_bb ?b1)" by blast
  have pts: "pieces_to_search (b\<lparr>all_pieces_bb := x\<rparr>) = pieces_to_search b"
    "friendly_pieces_bb (b\<lparr>all_pieces_bb := x\<rparr>) = friendly_pieces_bb b" for x
    by (simp_all add: pieces_to_search_def friendly_pieces_bb_def)
  have "push_bit k 1 AND (pieces_to_search b ! i) \<noteq> 0"
    using i(3)[unfolded pts k(2)] by (simp add: and.commute del: push_bit_of_1)
  then have src: "bit (pieces_to_search b ! i) k"
    by (simp only: single_and_nonzero)
  have "bit legal j" using hit[unfolded j(2)] by (simp only: single_and_nonzero)
  then have dst: "\<not> bit (friendly_pieces_bb b) j"
    using i(5)[unfolded pts] by (simp add: bit_and_iff bit_not_iff)
  show ?thesis
    using k(1) j(1) cf[unfolded k(2)] ct[unfolded j(2)] i(1) i(2)[unfolded pts] src dst
      up[unfolded i(4) k(2) j(2)]
    by blast
qed

lemma board_inv_sides:
  "board_inv b \<longleftrightarrow>
     length (pieces_to_search b) = 6 \<and> length (opponents_pieces_list b) = 6
     \<and> pairwise_disjoint (pieces_to_search b) \<and> pairwise_disjoint (opponents_pieces_list b)
     \<and> friendly_pieces_bb b = union_bb (pieces_to_search b)
     \<and> opponents_pieces_bb b = union_bb (opponents_pieces_list b)
     \<and> all_pieces_bb b = friendly_pieces_bb b OR opponents_pieces_bb b
     \<and> friendly_pieces_bb b AND opponents_pieces_bb b = 0"
  by (cases "current_turn b")
    (auto simp: board_inv_def pieces_to_search_def opponents_pieces_list_def
       friendly_pieces_bb_def opponents_pieces_bb_def or.commute and.commute)

lemma execute_move_preserves_inv:
  assumes inv: "board_inv b" and ok: "execute_move depth b mf mt = (b', Inr True)"
  shows "board_inv b'"
proof -
  from execute_move_success[OF ok] obtain k j i where
    k: "k < 64" and j: "j < 64" and i: "i < 6" "i < length (pieces_to_search b)"
    and src: "bit (pieces_to_search b ! i) k" and dst: "\<not> bit (friendly_pieces_bb b) j"
    and up: "update_bitboards
                (b\<lparr>all_pieces_bb := all_pieces_bb b AND NOT (push_bit k 1),
                   piece_moved_index := Some i\<rparr>) (push_bit k 1) (push_bit j 1)
              = (b', Inr ())"
    by blast
  define b2 where "b2 = b\<lparr>all_pieces_bb := all_pieces_bb b AND NOT (push_bit k 1),
                   piece_moved_index := Some i\<rparr>"
  define f :: int where "f = push_bit k 1"
  define t :: int where "t = push_bit j 1"
  have fb: "\<And>q. bit f q \<longleftrightarrow> q = k" and tb: "\<And>q. bit t q \<longleftrightarrow> q = j"
    unfolding f_def t_def by (rule bit_single)+
  have b2: "current_turn b2 = current_turn b" "piece_moved_index b2 = Some i"
    "pieces_to_search b2 = pieces_to_search b" "friendly_pieces_bb b2 = friendly_pieces_bb b"
    "opponents_pieces_list b2 = opponents_pieces_list b"
    "opponents_pieces_bb b2 = opponents_pieces_bb b"
    "all_pieces_bb b2 = all_pieces_bb b AND NOT f"
    unfolding b2_def f_def
    by (simp_all add: pieces_to_search_def friendly_pieces_bb_def opponents_pieces_list_def
          opponents_pieces_bb_def del: push_bit_of_1)
  note s = inv[unfolded board_inv_sides]
  have b': "b' = fst (update_bitboards b2 f t)"
    using up unfolding b2_def f_def t_def by simp
  have pmi: "piece_moved_index b2 = Some i" "i < length (pieces_to_search b2)"
    using b2 i by simp_all
  have un: "opponents_pieces_bb b2 = union_bb (opponents_pieces_list b2)"
    using s b2 by simp
  note own = update_bitboards_own[OF pmi, of f t, folded b', unfolded b2]
  note ol = update_bitboards_opp_list[OF pmi un, of f t, folded b', unfolded b2]
  note ob = update_bitboards_opp_bb[OF pmi un, of f t, folded b', unfolded b2]
  have Fr: "friendly_pieces_bb b = union_bb (pieces_to_search b)"
    and Op: "opponents_pieces_bb b = union_bb (opponents_pieces_list b)"
    and Al: "all_pieces_bb b = friendly_pieces_bb b OR opponents_pieces_bb b"
    and FrOp: "friendly_pieces_bb b AND opponents_pieces_bb b = 0"
    and pdo: "pairwise_disjoint (pieces_to_search b)"
    and pdp: "pairwise_disjoint (opponents_pieces_list b)"
    using s by blast+
  note step = inv_step[OF pdo pdp Fr Op Al FrOp i(2) src dst fb tb]
  show ?thesis
    unfolding board_inv_sides own(4,5,6) ol ob
    using step s by simp
qed

lemma pairwise_disjoint_upt:
  "pairwise_disjoint xs \<longleftrightarrow>
     (\<forall>n\<in>set [0..<length xs]. \<forall>m\<in>set [0..<length xs]. n \<noteq> m \<longrightarrow> xs ! n AND xs ! m = 0)"
  by (auto simp: pairwise_disjoint_def)

lemma board_inv_setup: "board_inv setup_new_board"
  unfolding board_inv_def pairwise_disjoint_upt union_bb_def by code_simp

lemma set_next_turn_fields:
  "white_pieces_list (set_next_turn b) = white_pieces_list b"
  "black_pieces_list (set_next_turn b) = black_pieces_list b"
  "all_white_pieces_bb (set_next_turn b) = all_white_pieces_bb b"
  "all_black_pieces_bb (set_next_turn b) = all_black_pieces_bb b"
  "all_pieces_bb (set_next_turn b) = all_pieces_bb b"
  "piece_moved_index (set_next_turn b) = piece_moved_index b"
  "piece_captured_index (set_next_turn b) = piece_captured_index b"
  by (simp_all add: set_next_turn_def)

lemma board_inv_set_next_turn: "board_inv (set_next_turn b) = board_inv b"
  by (simp only: board_inv_def set_next_turn_fields)

lemma reachable_inv: "reachable b \<Longrightarrow> board_inv b"
proof (induction rule: reachable.induct)
  case reachable_init
  show ?case by (rule board_inv_setup)
next
  case (reachable_move b depth move_from move_to b')
  then show ?case using execute_move_preserves_inv by blast
next
  case (reachable_turn b)
  then show ?case by (simp only: board_inv_set_next_turn)
qed

text \<open>
  C4. In every board reached from the starting position by successful \<open>execute_move\<close>
  calls and \<open>set_next_turn\<close> calls, each side has six piece masks that are pairwise
  disjoint, each side's aggregate mask is the union of its six masks, the all-pieces mask
  is the union of the two aggregates, and the two aggregates do not intersect.
\<close>

theorem masks_consistent:
  "reachable b \<Longrightarrow>
     length (white_pieces_list b) = 6 \<and> length (black_pieces_list b) = 6
     \<and> pairwise_disjoint (white_pieces_list b) \<and> pairwise_disjoint (black_pieces_list b)
     \<and> all_white_pieces_bb b = union_bb (white_pieces_list b)
     \<and> all_black_pieces_bb b = union_bb (black_pieces_list b)
     \<and> all_pieces_bb b = all_white_pieces_bb b OR all_black_pieces_bb b
     \<and> all_white_pieces_bb b AND all_black_pieces_bb b = 0"
  using reachable_inv[of b] unfolding board_inv_def by blast

lemma scenario_steps:
  "execute_move 8 setup_new_board ''e2'' ''e4''
     = (fst (execute_move 8 setup_new_board ''e2'' ''e4''), Inr True)"
  "execute_move 8 (set_next_turn (fst (execute_move 8 setup_new_board ''e2'' ''e4''))) ''d7'' ''d5''
     = (fst (execute_move 8 (set_next_turn (fst (execute_move 8 setup_new_board ''e2'' ''e4'')))
          ''d7'' ''d5''), Inr True)"
  "execute_move 8
       (set_next_turn (fst (execute_move 8
          (set_next_turn (fst (execute_move 8 setup_new_board ''e2'' ''e4'')))
          ''d7'' ''d5'')))
       ''e4'' ''d5'' = (after_e4_d5_exd5, Inr True)"
  by code_simp+

lemma reachable_scenario: "reachable after_e4_d5_exd5"
  by (intro reachable_move[OF _ scenario_steps(3)] reachable_turn
        reachable_move[OF _ scenario_steps(2)] reachable_move[OF _ scenario_steps(1)]
        reachable_init)

theorem masks_consistent_witness:
  "reachable after_e4_d5_exd5
   \<and> all_black_pieces_bb after_e4_d5_exd5 = union_bb (black_pieces_list after_e4_d5_exd5)
   \<and> all_white_pieces_bb after_e4_d5_exd5 AND all_black_pieces_bb after_e4_d5_exd5 = 0
   \<and> black_pieces_list after_e4_d5_exd5 ! 0 = 0xf7000000000000"
proof -
  have "black_pieces_list after_e4_d5_exd5 ! 0 = 0xf7000000000000" by code_simp
  then show ?thesis
    using masks_consistent[OF reachable_scenario] reachable_scenario by blast
qed

section \<open>Captures: what a move stores (C10)\<close>

lemma update_bitboards_no_capture:
  assumes "piece_moved_index b = Some i" "i < length (pieces_to_search b)"
    and "t AND opponents_pieces_bb b = 0"
  shows "piece_captured_index (fst (update_bitboards b f t)) = piece_captured_index b"
    and "opponents_pieces_list (fst (update_bitboards b f t)) = opponents_pieces_list b"
    and "opponents_pieces_bb (fst (update_bitboards b f t)) = opponents_pieces_bb b"
  unfolding update_bitboards_eq[OF assms(1,2)] using assms(3) by (simp_all add: move_own_fields)

lemma update_bitboards_capture:
  assumes pmi: "piece_moved_index b = Some i" "i < length (pieces_to_search b)"
    and hit: "t AND opponents_pieces_bb b \<noteq> 0"
    and c: "c < length (opponents_pieces_list b)" "t AND opponents_pieces_list b ! c \<noteq> 0"
    and others: "\<forall>n<length (opponents_pieces_list b). n \<noteq> c \<longrightarrow> t AND opponents_pieces_list b ! n = 0"
  shows "piece_captured_index (fst (update_bitboards b f t)) = Some c"
proof -
  let ?m = "move_own b i f t"
  let ?idxs = "[0..<length (opponents_pieces_list b)]"
  have "piece_captured_index (capture_loop ?m t ?idxs) = Some c"
    by (rule capture_loop_captured) (use c others in \<open>simp_all add: move_own_fields\<close>)
  then show ?thesis unfolding update_bitboards_eq[OF pmi] using hit by simp
qed

lemma push_bit_1_inject: "push_bit j (1::int) = push_bit j' 1 \<Longrightarrow> j = j'"
  using bit_single[of j j] bit_single[of j' j] by (simp del: push_bit_of_1)

text \<open>A successful move, with the update it made named.\<close>

lemma execute_move_update:
  assumes ok: "execute_move depth b mf mt = (b', Inr True)"
    and ct: "convert_to_bitboard (PyStr mt) = Inr (Some t)"
  obtains k j i where "k < 64" "j < 64" "t = push_bit j 1" "i < length (pieces_to_search b)"
    "bit (pieces_to_search b ! i) k" "\<not> bit (friendly_pieces_bb b) j"
    "b' = fst (update_bitboards
                (b\<lparr>all_pieces_bb := all_pieces_bb b AND NOT (push_bit k 1),
                   piece_moved_index := Some i\<rparr>) (push_bit k 1) t)"
proof -
  from execute_move_success[OF ok] obtain k j i where
    k: "k < 64" and j: "j < 64" and i: "i < length (pieces_to_search b)"
    and ct': "convert_to_bitboard (PyStr mt) = Inr (Some (push_bit j 1))"
    and src: "bit (pieces_to_search b ! i) k" and dst: "\<not> bit (friendly_pieces_bb b) j"
    and up: "update_bitboards
                (b\<lparr>all_pieces_bb := all_pieces_bb b AND NOT (push_bit k 1),
                   piece_moved_index := Some i\<rparr>) (push_bit k 1) (push_bit j 1)
              = (b', Inr ())"
    by blast
  have t: "t = push_bit j 1" using ct ct' by simp
  have "b' = fst (update_bitboards
                (b\<lparr>all_pieces_bb := all_pieces_bb b AND NOT (push_bit k 1),
                   piece_moved_index := Some i\<rparr>) (push_bit k 1) t)"
    unfolding t using up by simp
  then show ?thesis using that k j t i src dst by blast
qed

lemma prepared_fields:
  "current_turn (b\<lparr>all_pieces_bb := x, piece_moved_index := y\<rparr>) = current_turn b"
  "piece_moved_index (b\<lparr>all_pieces_bb := x, piece_moved_index := y\<rparr>) = y"
  "piece_captured_index (b\<lparr>all_pieces_bb := x, piece_moved_index := y\<rparr>) = piece_captured_index b"
  "pieces_to_search (b\<lparr>all_pieces_bb := x, piece_moved_index := y\<rparr>) = pieces_to_search b"
  "friendly_pieces_bb (b\<lparr>all_pieces_bb := x, piece_moved_index := y\<rparr>) = friendly_pieces_bb b"
  "opponents_pieces_list (b\<lparr>all_pieces_bb := x, piece_moved_index := y\<rparr>) = opponents_pieces_list b"
  "opponents_pieces_bb (b\<lparr>all_pieces_bb := x, piece_moved_index := y\<rparr>) = opponents_pieces_bb b"
  by (simp_all add: pieces_to_search_def friendly_pieces_bb_def opponents_pieces_list_def
        opponents_pieces_bb_def)

lemma no_capture_keeps_index:
  assumes ok: "execute_move depth b mf mt = (b', Inr True)"
    and ct: "convert_to_bitboard (PyStr mt) = Inr (Some t)"
    and free: "t AND opponents_pieces_bb b = 0"
  shows "piece_captured_index b' = piece_captured_index b"
    and "opponents_pieces_list b' = opponents_pieces_list b"
    and "opponents_pieces_bb b' = opponents_pieces_bb b"
proof -
  from execute_move_update[OF ok ct] obtain k j i where
    i: "i < length (pieces_to_search b)"
    and b': "b' = fst (update_bitboards
                (b\<lparr>all_pieces_bb := all_pieces_bb b AND NOT (push_bit k 1),
                   piece_moved_index := Some i\<rparr>) (push_bit k 1) t)"
    by blast
  let ?b2 = "b\<lparr>all_pieces_bb := all_pieces_bb b AND NOT (push_bit k 1),
                   piece_moved_index := Some i\<rparr>"
  have pmi: "piece_moved_index ?b2 = Some i" "i < length (pieces_to_search ?b2)"
    using i by (simp_all only: prepared_fields)
  have fr: "t AND opponents_pieces_bb ?b2 = 0" using free by (simp only: prepared_fields)
  show "piece_captured_index b' = piece_captured_index b"
    and "opponents_pieces_list b' = opponents_pieces_list b"
    and "opponents_pieces_bb b' = opponents_pieces_bb b"
    unfolding b' update_bitboards_no_capture[OF pmi fr] by (simp_all only: prepared_fields)
qed

lemma get_piece_captured_stale:
  "piece_captured_index b = Some c \<Longrightarrow> c < 6 \<Longrightarrow>
   snd (get_piece_captured b) = Inr (Some (piece_names ! c))"
  by (simp add: get_piece_captured_def py_index_def piece_names_def)

text \<open>
  C10. A successful \<open>execute_move\<close> whose destination does not meet the opponent's
  aggregate mask leaves \<open>_piece_captured_index\<close> as it was; so when it still holds the
  index \<open>c\<close> of an earlier capture, \<open>get_piece_captured\<close> called after this move returns
  the name of kind \<open>c\<close>, not \<open>None\<close>.
\<close>

theorem stale_capture_index:
  "execute_move depth b move_from move_to = (b', Inr True)
   \<and> convert_to_bitboard (PyStr move_to) = Inr (Some move_to_bb)
   \<and> move_to_bb AND opponents_pieces_bb b = 0
   \<longrightarrow> piece_captured_index b' = piece_captured_index b
       \<and> (\<forall>c<6. piece_captured_index b = Some c
             \<longrightarrow> snd (get_piece_captured b') = Inr (Some (piece_names ! c)))"
proof (intro impI)
  assume h: "execute_move depth b move_from move_to = (b', Inr True)
   \<and> convert_to_bitboard (PyStr move_to) = Inr (Some move_to_bb)
   \<and> move_to_bb AND opponents_pieces_bb b = 0"
  then have same: "piece_captured_index b' = piece_captured_index b"
    using no_capture_keeps_index(1)[of depth b move_from move_to b' move_to_bb] by blast
  then show "piece_captured_index b' = piece_captured_index b
       \<and> (\<forall>c<6. piece_captured_index b = Some c
             \<longrightarrow> snd (get_piece_captured b') = Inr (Some (piece_names ! c)))"
    using get_piece_captured_stale[of b'] by simp
qed

theorem stale_capture_index_witness:
  "execute_move 8 (set_next_turn after_e4_d5_exd5) ''a7'' ''a6'' = (after_exd5_a6, Inr True)
   \<and> convert_to_bitboard (PyStr ''a6'') = Inr (Some (push_bit 40 1))
   \<and> push_bit 40 1 AND opponents_pieces_bb (set_next_turn after_e4_d5_exd5) = 0
   \<and> piece_captured_index (set_next_turn after_e4_d5_exd5) = Some 0
   \<and> snd (get_piece_captured after_exd5_a6) = Inr (Some ''Pawn'')"
proof -
  have pre: "execute_move 8 (set_next_turn after_e4_d5_exd5) ''a7'' ''a6'' = (after_exd5_a6, Inr True)
   \<and> convert_to_bitboard (PyStr ''a6'') = Inr (Some (push_bit 40 1))
   \<and> push_bit 40 1 AND opponents_pieces_bb (set_next_turn after_e4_d5_exd5) = 0"
    by code_simp
  have pci: "piece_captured_index (set_next_turn after_e4_d5_exd5) = Some 0"
    by code_simp
  have name: "piece_names ! 0 = ''Pawn''" by (simp add: piece_names_def)
  have "(0::nat) < 6" by simp
  with stale_capture_index[of 8 "set_next_turn after_e4_d5_exd5" "''a7''" "''a6''"
      after_exd5_a6 "push_bit 40 1"] pre pci
  have "snd (get_piece_captured after_exd5_a6) = Inr (Some (piece_names ! 0))"
    by blast
  then show ?thesis using pre pci name by simp
qed

lemma execute_move_depth:
  assumes "8 \<le> depth"
  shows "execute_move depth b mf mt = execute_move 8 b mf mt"
proof (cases "convert_to_bitboard (PyStr mf)")
  case (Inl e)
  then show ?thesis by (simp add: execute_move_def)
next
  case (Inr cf)
  show ?thesis
  proof (cases cf)
    case None
    then show ?thesis using Inr by (simp add: execute_move_def split: sum.splits)
  next
    case (Some f)
    then obtain k where k: "k < 64" "f = push_bit k 1"
      using convert_to_bitboard_Some[of "PyStr mf" f] Inr by blast
    have "find_valid_moves depth b1 f = find_valid_moves 8 b1 f" for b1
      unfolding k(2) by (rule find_valid_moves_depth[OF k(1) assms])
    then show ?thesis using Inr Some
      by (simp add: execute_move_def Let_def split: sum.splits option.splits)
  qed
qed

lemma rook_capture_8:
  "snd (execute_move 8 rook_board ''A1'' ''A8'') = Inr True
   \<and> piece_captured_index (fst (execute_move 8 rook_board ''A1'' ''A8'')) = Some 1
   \<and> snd (get_piece_captured (fst (execute_move 8 rook_board ''A1'' ''A8''))) = Inr (Some ''Rook'')
   \<and> \<not> bit (black_pieces_list (fst (execute_move 8 rook_board ''A1'' ''A8'')) ! 1) 56
   \<and> current_turn rook_board = White
   \<and> bit (white_pieces_list rook_board ! 1) 0
   \<and> bit (black_pieces_list rook_board ! 1) 56"
  by code_simp

section \<open>Winner by extinction (C8)\<close>

lemma find_valid_moves_lists:
  "white_pieces_list (fst (find_valid_moves depth b f)) = white_pieces_list b
   \<and> black_pieces_list (fst (find_valid_moves depth b f)) = black_pieces_list b"
  unfolding find_valid_moves_def Let_def
  by (simp split: sum.splits)

lemma update_bitboards_error:
  "snd (update_bitboards b f t) = Inl e \<Longrightarrow> fst (update_bitboards b f t) = b"
  by (auto simp: update_bitboards_def Let_def split: option.splits if_splits)

lemma execute_move_lists:
  assumes "execute_move depth b mf mt = (b', r)" "r \<noteq> Inr True"
  shows "white_pieces_list b' = white_pieces_list b \<and> black_pieces_list b' = black_pieces_list b"
proof -
  have fv: "white_pieces_list b2 = white_pieces_list b \<and> black_pieces_list b2 = black_pieces_list b"
    if "find_valid_moves depth (b\<lparr>all_pieces_bb := x\<rparr>) f = (b2, y)" for b2 x f y
    using find_valid_moves_lists[of depth "b\<lparr>all_pieces_bb := x\<rparr>" f] that by simp
  have up: "b3 = b2" if "update_bitboards b2 f t = (b3, Inl e)" for b2 b3 f t e
    using update_bitboards_error[of b2 f t e] that by simp
  show ?thesis
    using assms unfolding execute_move_def Let_def
    by (auto split: if_splits sum.splits option.splits prod.splits dest!: fv up)
qed

lemma or_single_nonzero: "(x::int) OR push_bit j 1 \<noteq> 0"
proof
  assume "x OR push_bit j 1 = 0"
  then have "bit (x OR push_bit j 1) j = bit (0::int) j" by (simp only:)
  then show False by (simp add: bit_or_iff bit_single del: push_bit_of_1)
qed

lemma extinct_update: "\<not> extinct xs \<Longrightarrow> v \<noteq> 0 \<Longrightarrow> \<not> extinct (xs[i := v])"
  using set_update_subset_insert[of xs i v] by (auto simp: extinct_def list_ex_iff)

lemma update_bitboards_opp_length:
  assumes "piece_moved_index b = Some i" "i < length (pieces_to_search b)"
  shows "length (opponents_pieces_list (fst (update_bitboards b f t)))
         = length (opponents_pieces_list b)"
  unfolding update_bitboards_eq[OF assms]
  by (simp add: capture_loop_length move_own_fields)

lemma sides_lists:
  "(length (white_pieces_list b) = 6 \<and> length (black_pieces_list b) = 6)
     \<longleftrightarrow> (length (pieces_to_search b) = 6 \<and> length (opponents_pieces_list b) = 6)"
  by (auto simp: pieces_to_search_def opponents_pieces_list_def)

lemma sides_extinct:
  "\<not> extinct (pieces_to_search b)
   \<Longrightarrow> \<not> (extinct (white_pieces_list b) \<and> extinct (black_pieces_list b))"
  by (auto simp: pieces_to_search_def split: if_splits)

lemma execute_move_success_inv:
  assumes ok: "execute_move depth b mf mt = (b', Inr True)"
    and len: "length (white_pieces_list b) = 6 \<and> length (black_pieces_list b) = 6"
    and alive: "\<not> extinct (white_pieces_list b)" "\<not> extinct (black_pieces_list b)"
  shows "game_inv b'"
proof -
  from execute_move_success[OF ok] obtain k j i where
    i: "i < length (pieces_to_search b)"
    and up: "update_bitboards
                (b\<lparr>all_pieces_bb := all_pieces_bb b AND NOT (push_bit k 1),
                   piece_moved_index := Some i\<rparr>) (push_bit k 1) (push_bit j 1)
              = (b', Inr ())"
    by blast
  let ?b2 = "b\<lparr>all_pieces_bb := all_pieces_bb b AND NOT (push_bit k 1),
                   piece_moved_index := Some i\<rparr>"
  have b': "b' = fst (update_bitboards ?b2 (push_bit k 1) (push_bit j 1))" using up by simp
  have pmi: "piece_moved_index ?b2 = Some i" "i < length (pieces_to_search ?b2)"
    using i by (simp_all only: prepared_fields)
  have own: "pieces_to_search b'
      = (pieces_to_search b)[i := ((pieces_to_search b ! i) AND NOT (push_bit k 1)) OR push_bit j 1]"
    unfolding b' update_bitboards_own(4)[OF pmi] by (simp only: prepared_fields)
  have opp: "length (opponents_pieces_list b') = length (opponents_pieces_list b)"
    unfolding b' update_bitboards_opp_length[OF pmi] by (simp only: prepared_fields)
  have "\<not> extinct (pieces_to_search b)"
    using alive by (simp add: pieces_to_search_def)
  then have "\<not> extinct (pieces_to_search b')"
    unfolding own by (rule extinct_update) (rule or_single_nonzero)
  then have "\<not> (extinct (white_pieces_list b') \<and> extinct (black_pieces_list b'))"
    by (rule sides_extinct)
  moreover have "length (white_pieces_list b') = 6 \<and> length (black_pieces_list b') = 6"
    unfolding sides_lists using len[unfolded sides_lists] own opp by simp
  ultimately show ?thesis unfolding game_inv_def by blast
qed

lemma get_game_state_cases:
  "get_game_state g =
     (if extinct (white_pieces_list (cv_board g)) then BLACK_WON
      else if extinct (black_pieces_list (cv_board g)) then WHITE_WON else UNFINISHED)"
  by (simp add: get_game_state_def get_pieces_def extinct_def)

lemma getters_lists:
  "white_pieces_list (fst (get_piece_moved b)) = white_pieces_list b"
  "black_pieces_list (fst (get_piece_moved b)) = black_pieces_list b"
  "white_pieces_list (fst (get_piece_captured b)) = white_pieces_list b"
  "black_pieces_list (fst (get_piece_captured b)) = black_pieces_list b"
  by (simp_all add: get_piece_moved_def get_piece_captured_def split: option.splits sum.splits)

lemma update_display_lists:
  "white_pieces_list (cv_board (fst (update_display g mf mt))) = white_pieces_list (cv_board g)
   \<and> black_pieces_list (cv_board (fst (update_display g mf mt))) = black_pieces_list (cv_board g)"
proof -
  obtain b1 r1 where m: "get_piece_moved (cv_board g) = (b1, r1)"
    by (cases "get_piece_moved (cv_board g)")
  obtain b2 r2 where c: "get_piece_captured b1 = (b2, r2)" by (cases "get_piece_captured b1")
  have "white_pieces_list b1 = white_pieces_list (cv_board g)"
    "black_pieces_list b1 = black_pieces_list (cv_board g)"
    using getters_lists(1,2)[of "cv_board g"] m by simp_all
  moreover have "white_pieces_list b2 = white_pieces_list b1"
    "black_pieces_list b2 = black_pieces_list b1"
    using getters_lists(3,4)[of b1] c by simp_all
  ultimately show ?thesis
    by (cases r1; cases r2) (simp_all add: update_display_def Let_def m c)
qed

lemma game_inv_lists:
  "white_pieces_list b' = white_pieces_list b \<Longrightarrow> black_pieces_list b' = black_pieces_list b
   \<Longrightarrow> game_inv b' = game_inv b"
  by (simp add: game_inv_def)

lemma make_move_inv:
  assumes "game_inv (cv_board g)"
  shows "game_inv (cv_board (fst (make_move depth g mf mt)))"
proof (cases "get_game_state g = UNFINISHED")
  case False
  then show ?thesis using assms by (simp add: make_move_def)
next
  case True
  then have alive: "\<not> extinct (white_pieces_list (cv_board g))"
    "\<not> extinct (black_pieces_list (cv_board g))"
    unfolding get_game_state_cases by (auto split: if_splits)
  obtain b1 r where em: "execute_move depth (cv_board g) mf mt = (b1, r)"
    by (cases "execute_move depth (cv_board g) mf mt")
  show ?thesis
  proof (cases "r = Inr True")
    case False
    from execute_move_lists[OF em False] have "game_inv b1 = game_inv (cv_board g)"
      by (intro game_inv_lists) simp_all
    then show ?thesis using assms True em False
      by (cases r) (auto simp: make_move_def)
  next
    case ok: True
    have inv1: "game_inv b1"
      using execute_move_success_inv[OF em[unfolded ok] _ alive] assms
      unfolding game_inv_def by blast
    let ?g2 = "g\<lparr>cv_board := b1, game_state := get_game_state (g\<lparr>cv_board := b1\<rparr>)\<rparr>"
    obtain g3 r3 where ud: "update_display ?g2 mf mt = (g3, r3)"
      by (cases "update_display ?g2 mf mt")
    have "white_pieces_list (cv_board g3) = white_pieces_list b1
       \<and> black_pieces_list (cv_board g3) = black_pieces_list b1"
      using update_display_lists[of ?g2 mf mt] ud by simp
    then have inv3: "game_inv (cv_board g3)" "game_inv (set_next_turn (cv_board g3))"
      using inv1 by (simp_all add: game_inv_def set_next_turn_fields)
    show ?thesis
      using True em ok ud inv3
      by (cases r3) (simp_all add: make_move_def Let_def)
  qed
qed

lemma reachable_game_inv: "reachable_game g \<Longrightarrow> game_inv (cv_board g)"
proof (induction rule: reachable_game.induct)
  case reachable_new
  show ?case by (simp add: game_inv_def new_game_def setup_new_board_def extinct_def)
next
  case (reachable_make_move g depth move_from move_to)
  then show ?case using make_move_inv by blast
qed

text \<open>
  C8. In every game state reached through \<open>make_move\<close> from a new game (whatever each
  call returned), \<open>get_game_state\<close> reports White as winner exactly when one of
  Black's six masks is zero, Black as winner exactly when one of White's six masks is
  zero, and an unfinished game exactly when none of the twelve masks is zero.
\<close>

theorem winner_by_extinction:
  "reachable_game g \<Longrightarrow>
     length (white_pieces_list (cv_board g)) = 6 \<and> length (black_pieces_list (cv_board g)) = 6
     \<and> (get_game_state g = WHITE_WON \<longleftrightarrow> extinct (black_pieces_list (cv_board g)))
     \<and> (get_game_state g = BLACK_WON \<longleftrightarrow> extinct (white_pieces_list (cv_board g)))
     \<and> (get_game_state g = UNFINISHED \<longleftrightarrow>
          (\<forall>p\<in>set (white_pieces_list (cv_board g)). p \<noteq> 0)
          \<and> (\<forall>p\<in>set (black_pieces_list (cv_board g)). p \<noteq> 0))"
  using reachable_game_inv[of g] unfolding game_inv_def get_game_state_cases
  by (auto simp: extinct_def list_ex_iff)

lemma reachable_play: "reachable_game g \<Longrightarrow> reachable_game (play depth g moves)"
proof (induction moves arbitrary: g)
  case Nil
  then show ?case by simp
next
  case (Cons m moves)
  then show ?case by (cases m) (simp add: reachable_make_move)
qed

theorem winner_by_extinction_witness:
  "reachable_game queen_lost_game
   \<and> get_game_state queen_lost_game = WHITE_WON
   \<and> black_pieces_list (cv_board queen_lost_game) ! 4 = 0
   \<and> black_pieces_list (cv_board queen_lost_game) ! 5 = push_bit 60 1
   \<and> \<not> extinct (white_pieces_list (cv_board queen_lost_game))"
proof -
  have r: "reachable_game queen_lost_game"
    unfolding queen_lost_game_def by (rule reachable_play) (rule reachable_new)
  have e: "extinct (black_pieces_list (cv_board queen_lost_game))
      \<and> black_pieces_list (cv_board queen_lost_game) ! 4 = 0
      \<and> black_pieces_list (cv_board queen_lost_game) ! 5 = push_bit 60 1
      \<and> \<not> extinct (white_pieces_list (cv_board queen_lost_game))"
    by code_simp
  from winner_by_extinction[OF r] e have "get_game_state queen_lost_game = WHITE_WON"
    by blast
  then show ?thesis using r e by blast
qed

section \<open>Captures on every board the calls reach (C6)\<close>

lemma sides_inv_sides:
  "sides_inv b \<longleftrightarrow>
     length (pieces_to_search b) = 6 \<and> length (opponents_pieces_list b) = 6
     \<and> pairwise_disjoint (pieces_to_search b) \<and> pairwise_disjoint (opponents_pieces_list b)
     \<and> friendly_pieces_bb b = union_bb (pieces_to_search b)
     \<and> opponents_pieces_bb b = union_bb (opponents_pieces_list b)
     \<and> friendly_pieces_bb b AND opponents_pieces_bb b = 0"
  by (cases "current_turn b")
    (auto simp: sides_inv_def pieces_to_search_def opponents_pieces_list_def
       friendly_pieces_bb_def opponents_pieces_bb_def and.commute)

lemma sides_inv_fields:
  assumes "white_pieces_list b' = white_pieces_list b" "black_pieces_list b' = black_pieces_list b"
    "all_white_pieces_bb b' = all_white_pieces_bb b" "all_black_pieces_bb b' = all_black_pieces_bb b"
  shows "sides_inv b' = sides_inv b"
  by (simp only: sides_inv_def assms)

lemma find_valid_moves_sides:
  "white_pieces_list (fst (find_valid_moves depth b f)) = white_pieces_list b
   \<and> black_pieces_list (fst (find_valid_moves depth b f)) = black_pieces_list b
   \<and> all_white_pieces_bb (fst (find_valid_moves depth b f)) = all_white_pieces_bb b
   \<and> all_black_pieces_bb (fst (find_valid_moves depth b f)) = all_black_pieces_bb b"
  unfolding find_valid_moves_def Let_def
  by (simp split: sum.splits)

lemma execute_move_failure_sides:
  assumes "execute_move depth b mf mt = (b', r)" "r \<noteq> Inr True"
  shows "white_pieces_list b' = white_pieces_list b \<and> black_pieces_list b' = black_pieces_list b
     \<and> all_white_pieces_bb b' = all_white_pieces_bb b
     \<and> all_black_pieces_bb b' = all_black_pieces_bb b"
proof -
  have fv: "white_pieces_list b2 = white_pieces_list b \<and> black_pieces_list b2 = black_pieces_list b
      \<and> all_white_pieces_bb b2 = all_white_pieces_bb b
      \<and> all_black_pieces_bb b2 = all_black_pieces_bb b"
    if "find_valid_moves depth (b\<lparr>all_pieces_bb := x\<rparr>) f = (b2, y)" for b2 x f y
    using find_valid_moves_sides[of depth "b\<lparr>all_pieces_bb := x\<rparr>" f] that by simp
  have up: "b3 = b2" if "update_bitboards b2 f t = (b3, Inl e)" for b2 b3 f t e
    using update_bitboards_error[of b2 f t e] that by simp
  show ?thesis
    using assms unfolding execute_move_def Let_def
    by (auto split: if_splits sum.splits option.splits prod.splits dest!: fv up)
qed

lemma execute_move_success_sides:
  assumes inv: "sides_inv b" and ok: "execute_move depth b mf mt = (b', Inr True)"
  shows "sides_inv b'"
proof -
  from execute_move_success[OF ok] obtain k j i where
    k: "k < 64" and j: "j < 64" and i: "i < 6" "i < length (pieces_to_search b)"
    and src: "bit (pieces_to_search b ! i) k" and dst: "\<not> bit (friendly_pieces_bb b) j"
    and up: "update_bitboards
                (b\<lparr>all_pieces_bb := all_pieces_bb b AND NOT (push_bit k 1),
                   piece_moved_index := Some i\<rparr>) (push_bit k 1) (push_bit j 1)
              = (b', Inr ())"
    by blast
  define b2 where "b2 = b\<lparr>all_pieces_bb := all_pieces_bb b AND NOT (push_bit k 1),
                   piece_moved_index := Some i\<rparr>"
  define f :: int where "f = push_bit k 1"
  define t :: int where "t = push_bit j 1"
  have fb: "\<And>q. bit f q \<longleftrightarrow> q = k" and tb: "\<And>q. bit t q \<longleftrightarrow> q = j"
    unfolding f_def t_def by (rule bit_single)+
  have b2: "current_turn b2 = current_turn b" "piece_moved_index b2 = Some i"
    "pieces_to_search b2 = pieces_to_search b" "friendly_pieces_bb b2 = friendly_pieces_bb b"
    "opponents_pieces_list b2 = opponents_pieces_list b"
    "opponents_pieces_bb b2 = opponents_pieces_bb b"
    unfolding b2_def by (simp_all only: prepared_fields)
  note s = inv[unfolded sides_inv_sides]
  have b': "b' = fst (update_bitboards b2 f t)"
    using up unfolding b2_def f_def t_def by simp
  have pmi: "piece_moved_index b2 = Some i" "i < length (pieces_to_search b2)"
    using b2 i by simp_all
  have un: "opponents_pieces_bb b2 = union_bb (opponents_pieces_list b2)"
    using s b2 by simp
  note own = update_bitboards_own[OF pmi, of f t, folded b', unfolded b2]
  note ol = update_bitboards_opp_list[OF pmi un, of f t, folded b', unfolded b2]
  note ob = update_bitboards_opp_bb[OF pmi un, of f t, folded b', unfolded b2]
  have Fr: "friendly_pieces_bb b = union_bb (pieces_to_search b)"
    and Op: "opponents_pieces_bb b = union_bb (opponents_pieces_list b)"
    and FrOp: "friendly_pieces_bb b AND opponents_pieces_bb b = 0"
    and pdo: "pairwise_disjoint (pieces_to_search b)"
    and pdp: "pairwise_disjoint (opponents_pieces_list b)"
    using s by blast+
  note step = inv_step[OF pdo pdp Fr Op refl FrOp i(2) src dst fb tb]
  show ?thesis
    unfolding sides_inv_sides own(4,5) ol ob
    using step(1,2,3,4,6) s by simp
qed

lemma execute_move_sides_inv:
  assumes "sides_inv b"
  shows "sides_inv (fst (execute_move depth b mf mt))"
proof (cases "snd (execute_move depth b mf mt) = Inr True")
  case True
  then have "execute_move depth b mf mt = (fst (execute_move depth b mf mt), Inr True)"
    by (metis prod.collapse)
  then show ?thesis by (rule execute_move_success_sides[OF assms])
next
  case False
  have "execute_move depth b mf mt
      = (fst (execute_move depth b mf mt), snd (execute_move depth b mf mt))" by simp
  from execute_move_failure_sides[OF this False]
  have "sides_inv (fst (execute_move depth b mf mt)) = sides_inv b"
    by (intro sides_inv_fields) blast+
  then show ?thesis using assms by blast
qed

lemma sides_inv_setup: "sides_inv setup_new_board"
  using board_inv_setup unfolding board_inv_def sides_inv_def by blast

lemma getters_sides:
  "sides_inv (fst (get_piece_moved b)) = sides_inv b"
  "sides_inv (fst (get_piece_captured b)) = sides_inv b"
  by (simp_all add: sides_inv_def get_piece_moved_def get_piece_captured_def
        split: option.splits sum.splits)

lemma reachable_call_inv: "reachable_call b \<Longrightarrow> sides_inv b"
proof (induction rule: reachable_call.induct)
  case call_init
  show ?case by (rule sides_inv_setup)
next
  case (call_execute_move b depth move_from move_to)
  then show ?case by (simp only: execute_move_sides_inv)
next
  case (call_set_next_turn b)
  have "sides_inv (set_next_turn b) = sides_inv b"
    by (rule sides_inv_fields) (rule set_next_turn_fields)+
  then show ?case using call_set_next_turn by blast
next
  case (call_get_piece_moved b)
  then show ?case by (simp only: getters_sides)
next
  case (call_get_piece_captured b)
  then show ?case by (simp only: getters_sides)
qed

lemma unique_opponent_kind:
  assumes len: "length (opponents_pieces_list b) = 6"
    and pd: "pairwise_disjoint (opponents_pieces_list b)"
    and un: "opponents_pieces_bb b = union_bb (opponents_pieces_list b)"
    and occ: "bit (opponents_pieces_bb b) j"
  shows "\<exists>c<6. bit (opponents_pieces_list b ! c) j
           \<and> (\<forall>n<6. n \<noteq> c \<longrightarrow> \<not> bit (opponents_pieces_list b ! n) j)"
proof -
  from occ un len obtain c where c: "c < 6" "bit (opponents_pieces_list b ! c) j"
    by (auto simp: bit_union_bb)
  have "\<not> bit (opponents_pieces_list b ! n) j" if "n < 6" "n \<noteq> c" for n
    using pd len c that unfolding pairwise_disjoint_bits by metis
  then show ?thesis using c by blast
qed

lemma capture_clears_kind:
  assumes len: "length (opponents_pieces_list b) = 6"
    and pd: "pairwise_disjoint (opponents_pieces_list b)"
    and un0: "opponents_pieces_bb b = union_bb (opponents_pieces_list b)"
    and ok: "execute_move depth b mf mt = (b', Inr True)"
    and ct: "convert_to_bitboard (PyStr mt) = Inr (Some (push_bit j 1))"
    and occ: "bit (opponents_pieces_bb b) j"
    and c: "c < 6" "bit (opponents_pieces_list b ! c) j"
  shows "piece_captured_index b' = Some c"
    and "opponents_pieces_list b'
         = (opponents_pieces_list b)[c := opponents_pieces_list b ! c AND NOT (push_bit j 1)]"
    and "opponents_pieces_bb b' = opponents_pieces_bb b AND NOT (push_bit j 1)"
proof -
  define t :: int where "t = push_bit j 1"
  have tb: "\<And>x. t AND x \<noteq> 0 \<longleftrightarrow> bit x j" unfolding t_def by (rule single_and_nonzero)
  then have tb0: "\<And>x. t AND x = 0 \<longleftrightarrow> \<not> bit x j" by blast
  from execute_move_update[OF ok ct] obtain k j' i where
    i: "i < length (pieces_to_search b)"
    and b': "b' = fst (update_bitboards
                (b\<lparr>all_pieces_bb := all_pieces_bb b AND NOT (push_bit k 1),
                   piece_moved_index := Some i\<rparr>) (push_bit k 1) t)"
    unfolding t_def by blast
  let ?b2 = "b\<lparr>all_pieces_bb := all_pieces_bb b AND NOT (push_bit k 1),
                   piece_moved_index := Some i\<rparr>"
  have pmi: "piece_moved_index ?b2 = Some i" "i < length (pieces_to_search ?b2)"
    using i by (simp_all only: prepared_fields)
  have un: "opponents_pieces_bb ?b2 = union_bb (opponents_pieces_list ?b2)"
    using un0 by (simp only: prepared_fields)
  have others: "\<not> bit (opponents_pieces_list b ! n) j" if "n < 6" "n \<noteq> c" for n
    using pd len c that unfolding pairwise_disjoint_bits by metis
  have others_t: "\<forall>n<length (opponents_pieces_list ?b2). n \<noteq> c
        \<longrightarrow> t AND opponents_pieces_list ?b2 ! n = 0"
    using others tb0 len by (simp add: prepared_fields)
  have hit: "t AND opponents_pieces_bb ?b2 \<noteq> 0"
    and cc: "c < length (opponents_pieces_list ?b2)" "t AND opponents_pieces_list ?b2 ! c \<noteq> 0"
    using occ c tb len by (simp_all add: prepared_fields)
  show "piece_captured_index b' = Some c"
    unfolding b' by (rule update_bitboards_capture[OF pmi hit cc others_t])
  have "map (\<lambda>x. x AND NOT t) (opponents_pieces_list b)
        = (opponents_pieces_list b)[c := opponents_pieces_list b ! c AND NOT t]"
  proof (rule nth_equalityI)
    show "length (map (\<lambda>x. x AND NOT t) (opponents_pieces_list b))
        = length ((opponents_pieces_list b)[c := opponents_pieces_list b ! c AND NOT t])"
      by simp
  next
    fix n
    assume "n < length (map (\<lambda>x. x AND NOT t) (opponents_pieces_list b))"
    then have n: "n < 6" using len by simp
    show "map (\<lambda>x. x AND NOT t) (opponents_pieces_list b) ! n
        = (opponents_pieces_list b)[c := opponents_pieces_list b ! c AND NOT t] ! n"
    proof (cases "n = c")
      case True
      then show ?thesis using n len by simp
    next
      case False
      then have "t AND opponents_pieces_list b ! n = 0" using others[OF n] tb by blast
      then show ?thesis using False n len by (simp add: and_not_absorb)
    qed
  qed
  then show "opponents_pieces_list b'
         = (opponents_pieces_list b)[c := opponents_pieces_list b ! c AND NOT (push_bit j 1)]"
    unfolding b' update_bitboards_opp_list[OF pmi un] t_def by (simp only: prepared_fields)
  show "opponents_pieces_bb b' = opponents_pieces_bb b AND NOT (push_bit j 1)"
    unfolding b' update_bitboards_opp_bb[OF pmi un] t_def by (simp only: prepared_fields)
qed

lemma reachable_call_opponent:
  assumes "reachable_call b"
  shows "length (opponents_pieces_list b) = 6 \<and> pairwise_disjoint (opponents_pieces_list b)
     \<and> opponents_pieces_bb b = union_bb (opponents_pieces_list b)"
  using reachable_call_inv[OF assms] unfolding sides_inv_sides by blast

text \<open>
  C6. Take any board on which the opponent's list has six pairwise disjoint masks whose
  union is the opponent's aggregate mask; every board reached from the starting position
  through \<open>execute_move\<close> (whether the call succeeded, was rejected or raised),
  \<open>set_next_turn\<close> and the two getters is such a board, whatever \<open>_all_pieces_bb\<close>
  holds. A successful \<open>execute_move\<close> to a destination \<open>j\<close> that the opponent's
  aggregate mask holds finds the one opposing kind \<open>c\<close> whose mask holds \<open>j\<close>, clears
  the bit from that mask and from the opponent's aggregate mask, leaves the other opposing
  masks alone and stores \<open>c\<close> as the captured index. A successful move, on any board at
  all, to a destination the opponent does not hold stores nothing and leaves the
  opponent's masks alone. On the board reached by 1. a2-a4 b7-b5 2. a4xb5 a7-a6
  3. b5xa6 h7-h6 4. a6-a7 h6-h5 5. a7xb8 h5-h4, the move A1 to A8 by the White Rook
  succeeds with any eight or more stack frames, the captured kind read back is Rook, and
  Black's Rook mask no longer holds A8 (square 56).
\<close>

theorem capture_recorded:
  "(\<forall>depth b move_from move_to b' j.
      length (opponents_pieces_list b) = 6 \<and> pairwise_disjoint (opponents_pieces_list b)
      \<and> opponents_pieces_bb b = union_bb (opponents_pieces_list b)
      \<and> execute_move depth b move_from move_to = (b', Inr True)
      \<and> convert_to_bitboard (PyStr move_to) = Inr (Some (push_bit j 1))
      \<and> bit (opponents_pieces_bb b) j
      \<longrightarrow>
        (\<exists>c<6. bit (opponents_pieces_list b ! c) j
           \<and> (\<forall>n<6. n \<noteq> c \<longrightarrow> \<not> bit (opponents_pieces_list b ! n) j)
           \<and> opponents_pieces_list b'
               = (opponents_pieces_list b)[c := opponents_pieces_list b ! c AND NOT (push_bit j 1)]
           \<and> opponents_pieces_bb b' = opponents_pieces_bb b AND NOT (push_bit j 1)
           \<and> piece_captured_index b' = Some c))
   \<and> (\<forall>b. reachable_call b \<longrightarrow>
         length (opponents_pieces_list b) = 6 \<and> pairwise_disjoint (opponents_pieces_list b)
         \<and> opponents_pieces_bb b = union_bb (opponents_pieces_list b))
   \<and> (\<forall>depth b move_from move_to b' j.
         execute_move depth b move_from move_to = (b', Inr True)
         \<and> convert_to_bitboard (PyStr move_to) = Inr (Some (push_bit j 1))
         \<and> \<not> bit (opponents_pieces_bb b) j
         \<longrightarrow>
           piece_captured_index b' = piece_captured_index b
           \<and> opponents_pieces_list b' = opponents_pieces_list b
           \<and> opponents_pieces_bb b' = opponents_pieces_bb b)
   \<and> current_turn rook_board = White
   \<and> bit (white_pieces_list rook_board ! 1) 0
   \<and> bit (black_pieces_list rook_board ! 1) 56
   \<and> (\<forall>depth. 8 \<le> depth \<longrightarrow>
         snd (execute_move depth rook_board ''A1'' ''A8'') = Inr True
         \<and> piece_captured_index (fst (execute_move depth rook_board ''A1'' ''A8'')) = Some 1
         \<and> snd (get_piece_captured (fst (execute_move depth rook_board ''A1'' ''A8'')))
             = Inr (Some ''Rook'')
         \<and> \<not> bit (black_pieces_list (fst (execute_move depth rook_board ''A1'' ''A8'')) ! 1) 56)"
proof (intro conjI allI impI)
  fix depth b move_from move_to b' j
  assume h: "length (opponents_pieces_list b) = 6 \<and> pairwise_disjoint (opponents_pieces_list b)
      \<and> opponents_pieces_bb b = union_bb (opponents_pieces_list b)
      \<and> execute_move depth b move_from move_to = (b', Inr True)
      \<and> convert_to_bitboard (PyStr move_to) = Inr (Some (push_bit j 1))
      \<and> bit (opponents_pieces_bb b) j"
  then have len: "length (opponents_pieces_list b) = 6"
    and pd: "pairwise_disjoint (opponents_pieces_list b)"
    and un: "opponents_pieces_bb b = union_bb (opponents_pieces_list b)"
    and ok: "execute_move depth b move_from move_to = (b', Inr True)"
    and ct: "convert_to_bitboard (PyStr move_to) = Inr (Some (push_bit j 1))"
    and occ: "bit (opponents_pieces_bb b) j"
    by blast+
  from unique_opponent_kind[OF len pd un occ] obtain c where
    c: "c < 6" "bit (opponents_pieces_list b ! c) j"
      "\<forall>n<6. n \<noteq> c \<longrightarrow> \<not> bit (opponents_pieces_list b ! n) j" by blast
  note cap = capture_clears_kind[OF len pd un ok ct occ c(1,2)]
  show "\<exists>c<6. bit (opponents_pieces_list b ! c) j
           \<and> (\<forall>n<6. n \<noteq> c \<longrightarrow> \<not> bit (opponents_pieces_list b ! n) j)
           \<and> opponents_pieces_list b'
               = (opponents_pieces_list b)[c := opponents_pieces_list b ! c AND NOT (push_bit j 1)]
           \<and> opponents_pieces_bb b' = opponents_pieces_bb b AND NOT (push_bit j 1)
           \<and> piece_captured_index b' = Some c"
    using c cap by blast
next
  fix b
  assume r: "reachable_call b"
  note o = reachable_call_opponent[OF r]
  show "length (opponents_pieces_list b) = 6" using o by blast
  show "pairwise_disjoint (opponents_pieces_list b)" using o by blast
  show "opponents_pieces_bb b = union_bb (opponents_pieces_list b)" using o by blast
next
  fix depth b move_from move_to b' j
  assume h: "execute_move depth b move_from move_to = (b', Inr True)
      \<and> convert_to_bitboard (PyStr move_to) = Inr (Some (push_bit j 1))
      \<and> \<not> bit (opponents_pieces_bb b) j"
  then have free: "push_bit j 1 AND opponents_pieces_bb b = 0"
    using single_and_nonzero[of j "opponents_pieces_bb b"] by blast
  from h have ok: "execute_move depth b move_from move_to = (b', Inr True)"
    and ct: "convert_to_bitboard (PyStr move_to) = Inr (Some (push_bit j 1))" by blast+
  note keep = no_capture_keeps_index[OF ok ct free]
  show "piece_captured_index b' = piece_captured_index b" by (rule keep(1))
  show "opponents_pieces_list b' = opponents_pieces_list b" by (rule keep(2))
  show "opponents_pieces_bb b' = opponents_pieces_bb b" by (rule keep(3))
next
  show "current_turn rook_board = White" using rook_capture_8 by blast
  show "bit (white_pieces_list rook_board ! 1) 0" using rook_capture_8 by blast
  show "bit (black_pieces_list rook_board ! 1) 56" using rook_capture_8 by blast
next
  fix depth :: nat
  assume d: "8 \<le> depth"
  show "snd (execute_move depth rook_board ''A1'' ''A8'') = Inr True"
    and "piece_captured_index (fst (execute_move depth rook_board ''A1'' ''A8'')) = Some 1"
    and "snd (get_piece_captured (fst (execute_move depth rook_board ''A1'' ''A8'')))
             = Inr (Some ''Rook'')"
    and "\<not> bit (black_pieces_list (fst (execute_move depth rook_board ''A1'' ''A8'')) ! 1) 56"
    unfolding execute_move_depth[OF d] using rook_capture_8 by blast+
qed

lemma reachable_call_scenario: "reachable_call after_rejected_d4_e5"
  unfolding after_rejected_d4_e5_def
  by (intro call_set_next_turn call_execute_move call_init)

lemma after_rejected_d4_e5_capture:
  "snd (execute_move 8 setup_new_board ''e4'' ''e5'') = Inr False
   \<and> all_pieces_bb after_rejected_d4_e5
       \<noteq> all_white_pieces_bb after_rejected_d4_e5 OR all_black_pieces_bb after_rejected_d4_e5
   \<and> execute_move 8 after_rejected_d4_e5 ''d4'' ''e5''
       = (fst (execute_move 8 after_rejected_d4_e5 ''d4'' ''e5''), Inr True)
   \<and> convert_to_bitboard (PyStr ''e5'') = Inr (Some (push_bit 36 1))
   \<and> bit (opponents_pieces_bb after_rejected_d4_e5) 36
   \<and> bit (opponents_pieces_list after_rejected_d4_e5 ! 0) 36
   \<and> opponents_pieces_bb (fst (execute_move 8 after_rejected_d4_e5 ''d4'' ''e5''))
       = 0xffef000000000000"
  by code_simp

theorem capture_recorded_witness:
  "reachable_call after_rejected_d4_e5
   \<and> \<not> board_inv after_rejected_d4_e5
   \<and> length (opponents_pieces_list after_rejected_d4_e5) = 6
   \<and> pairwise_disjoint (opponents_pieces_list after_rejected_d4_e5)
   \<and> opponents_pieces_bb after_rejected_d4_e5
       = union_bb (opponents_pieces_list after_rejected_d4_e5)
   \<and> execute_move 8 after_rejected_d4_e5 ''d4'' ''e5''
       = (fst (execute_move 8 after_rejected_d4_e5 ''d4'' ''e5''), Inr True)
   \<and> convert_to_bitboard (PyStr ''e5'') = Inr (Some (push_bit 36 1))
   \<and> bit (opponents_pieces_bb after_rejected_d4_e5) 36
   \<and> piece_captured_index (fst (execute_move 8 after_rejected_d4_e5 ''d4'' ''e5'')) = Some 0
   \<and> opponents_pieces_bb (fst (execute_move 8 after_rejected_d4_e5 ''d4'' ''e5''))
       = 0xffef000000000000"
proof -
  let ?b = "after_rejected_d4_e5"
  let ?b' = "fst (execute_move 8 after_rejected_d4_e5 ''d4'' ''e5'')"
  note sc = after_rejected_d4_e5_capture
  have r: "reachable_call ?b" by (rule reachable_call_scenario)
  have ninv: "\<not> board_inv ?b" using sc unfolding board_inv_def by blast
  from capture_recorded r
  have o: "length (opponents_pieces_list ?b) = 6 \<and> pairwise_disjoint (opponents_pieces_list ?b)
     \<and> opponents_pieces_bb ?b = union_bb (opponents_pieces_list ?b)"
    by blast
  from capture_recorded o sc
  obtain c where "c < 6" "bit (opponents_pieces_list ?b ! c) 36"
    "\<forall>n<6. n \<noteq> c \<longrightarrow> \<not> bit (opponents_pieces_list ?b ! n) 36"
    "piece_captured_index ?b' = Some c"
    by blast
  moreover have "c = 0" using calculation(1,3) sc by (cases "c = 0") auto
  ultimately show ?thesis using r ninv o sc by blast
qed

section \<open>Where the code departs from the specification (C3, C5, C7, C9)\<close>

text \<open>
  C5 fails on the code. On the starting position, \<open>execute_move("E4", "E5")\<close> finds no
  piece on E4 and returns \<open>False\<close>, but the board it leaves has bit 28 (E4) set in
  \<open>_all_pieces_bb\<close>: the origin bit is "put back" although it was never there. The pawn
  move E2 to E4, legal before, is then refused.
\<close>

theorem failed_move_changes_board:
  "execute_move 8 setup_new_board ''E4'' ''E5''
     = (setup_new_board\<lparr>all_pieces_bb := 0xffff00001000ffff\<rparr>, Inr False)
   \<and> all_pieces_bb setup_new_board = 0xffff00000000ffff
   \<and> fst (execute_move 8 setup_new_board ''E4'' ''E5'') \<noteq> setup_new_board
   \<and> snd (execute_move 8 setup_new_board ''E2'' ''E4'') = Inr True
   \<and> snd (execute_move 8 (fst (execute_move 8 setup_new_board ''E4'' ''E5'')) ''E2'' ''E4'')
       = Inr False"
  by code_simp

text \<open>
  C3 fails on the code. In a new game the call \<open>make_move("d3", "d4")\<close> is rejected (D3
  is empty), but it leaves bit 19 (D3) set in \<open>_all_pieces_bb\<close> although neither side has
  a piece there: the origin bit that the failure exits of \<open>execute_move\<close> "put back",
  as under C5. \<open>generate_moves_pawn\<close> tests the diagonal squares against
  \<open>_all_pieces_bb\<close>, so the White pawn on E2 (12) now has D3 among its destinations,
  \<open>{19, 20, 28}\<close>, and \<open>make_move("e2", "d3")\<close> succeeds: the pawn moves diagonally
  to a square that holds no opposing piece, and no capture is recorded.
\<close>

theorem pawn_moves_diagonally_to_empty_square:
  "snd (make_move 8 new_game ''d3'' ''d4'') = Inr False
   \<and> white_pieces_list (cv_board after_d3_d4_rejected) = white_pieces_list setup_new_board
   \<and> black_pieces_list (cv_board after_d3_d4_rejected) = black_pieces_list setup_new_board
   \<and> current_turn (cv_board after_d3_d4_rejected) = White
   \<and> bit (white_pieces_list (cv_board after_d3_d4_rejected) ! 0) 12
   \<and> \<not> bit (all_white_pieces_bb (cv_board after_d3_d4_rejected)) 19
   \<and> \<not> bit (all_black_pieces_bb (cv_board after_d3_d4_rejected)) 19
   \<and> bit (all_pieces_bb (cv_board after_d3_d4_rejected)) 19
   \<and> step_square Northwest 12 = Some 19
   \<and> snd (find_valid_moves 8
            ((cv_board after_d3_d4_rejected)
               \<lparr>all_pieces_bb := all_pieces_bb (cv_board after_d3_d4_rejected)
                                   AND NOT (push_bit 12 1)\<rparr>)
            (push_bit 12 1)) = Inr 270008320
   \<and> squares_of 270008320 = [19, 20, 28]
   \<and> \<not> pawn_destination White
          (\<lambda>j. bit (all_white_pieces_bb (cv_board after_d3_d4_rejected)) j
                \<or> bit (all_black_pieces_bb (cv_board after_d3_d4_rejected)) j)
          (\<lambda>j. bit (all_black_pieces_bb (cv_board after_d3_d4_rejected)) j) 12 19
   \<and> snd (make_move 8 after_d3_d4_rejected ''e2'' ''d3'') = Inr True
   \<and> white_pieces_list (cv_board (fst (make_move 8 after_d3_d4_rejected ''e2'' ''d3''))) ! 0
       = 0xef00 OR push_bit 19 1
   \<and> black_pieces_list (cv_board (fst (make_move 8 after_d3_d4_rejected ''e2'' ''d3'')))
       = black_pieces_list setup_new_board
   \<and> previous_move (fst (make_move 8 after_d3_d4_rejected ''e2'' ''d3''))
       = Some (White, ''Pawn'', ''e2'', ''d3'', None)"
  by code_simp

text \<open>
  C7 fails on the code. For the two-character string \<open>"AX"\<close>, \<open>int(location[1])\<close> raises
  \<open>ValueError\<close> before the range checks are reached; \<open>execute_move\<close> passes the
  exception on.
\<close>

theorem convert_raises_on_non_digit:
  "convert_to_bitboard (PyStr ''AX'') = Inl ValueError
   \<and> execute_move 8 setup_new_board ''AX'' ''A3'' = (setup_new_board, Inl ValueError)"
  by code_simp

text \<open>
  C9 fails on the code. After 1. e2-e4, with Black to move, the Black Knight on B8
  (square 57) gets a destination bitboard with bits 72, 74 and 67 set, beyond the 64
  squares: the northern boundary mask in \<open>generate_moves_knight\<close> is the negative number
  \<open>-0xffff000000000000\<close>, which covers bit 48 and the bits from 64 up, not ranks 7 and 8
  of the shifted frame.
\<close>

theorem knight_moves_exceed_64_bits:
  "reachable after_e4_black_to_move
   \<and> current_turn after_e4_black_to_move = Black
   \<and> bit (black_pieces_list after_e4_black_to_move ! 2) 57
   \<and> snd (find_valid_moves 8 after_e4_black_to_move (push_bit 57 1))
       = Inr 23759406372435460620288
   \<and> \<not> (23759406372435460620288 < (2::int) ^ 64)
   \<and> generate_moves_knight (push_bit 57 1) = 23759408624235274305536"
proof -
  have "reachable after_e4_black_to_move"
    unfolding after_e4_black_to_move_def
    by (intro reachable_turn reachable_move[OF _ scenario_steps(1)] reachable_init)
  moreover have "current_turn after_e4_black_to_move = Black
   \<and> bit (black_pieces_list after_e4_black_to_move ! 2) 57
   \<and> snd (find_valid_moves 8 after_e4_black_to_move (push_bit 57 1))
       = Inr 23759406372435460620288
   \<and> \<not> (23759406372435460620288 < (2::int) ^ 64)
   \<and> generate_moves_knight (push_bit 57 1) = 23759408624235274305536"
    by code_simp
  ultimately show ?thesis by blast
qed

end
